theory Spec2Isabelle
  imports Main "HOL-Library.Word" "HOL-Library.Signed_Division"
begin

unbundle bit_operations_syntax

section \<open>Machine types of \<open>main.cpp\<close>\<close>

text \<open>
  The decoding engine of the raw image viewer is the part of \<open>src/main.cpp\<close> between the
  bit readers (line 29) and the end of \<open>render_viewport\<close> (line 203). Its values are
  machine integers, modelled as words of the same width:
  \<open>uint8_t\<close> is \<open>8 word\<close>, \<open>uint32_t\<close> is \<open>32 word\<close>, \<open>size_t\<close>, \<open>uint64_t\<close> and
  \<open>unsigned long long\<close> are \<open>64 word\<close>, and \<open>int\<close> is \<open>32 word\<close> read as two's
  complement (\<open>sint\<close>, \<open><s\<close>, \<open>sdiv\<close>). Unsigned arithmetic wraps around, as C++ defines.

  Where C++ leaves an operation undefined, the model follows the 64-bit machines the
  viewer is built for:
  \<^item> signed \<open>int\<close> arithmetic wraps around (two's complement);
  \<^item> a shift takes its count modulo the width of the shifted operand, as the shift
    instructions of x86-64 and AArch64 do (\<open>shl_int\<close>, \<open>shl_u64\<close>, \<open>shr_u64\<close> below);
    for a count within the width this is the shift C++ defines;
  \<^item> a read or write outside an array and a division by zero have no value: they are
    the results \<open>Inl OutOfBounds\<close> and \<open>Inl DivideByZero\<close>.
\<close>

type_synonym u8 = "8 word"
type_synonym u32 = "32 word"
type_synonym u64 = "64 word"
type_synonym cint = "32 word"

datatype fault = OutOfBounds | DivideByZero

definition shl_int :: "cint \<Rightarrow> int \<Rightarrow> cint" where
  "shl_int x n = push_bit (nat (n mod 32)) x"

definition shl_u64 :: "u64 \<Rightarrow> int \<Rightarrow> u64" where
  "shl_u64 x n = push_bit (nat (n mod 64)) x"

definition shr_u64 :: "u64 \<Rightarrow> int \<Rightarrow> u64" where
  "shr_u64 x n = drop_bit (nat (n mod 64)) x"

text \<open>\<open>std::max<int>\<close> and \<open>std::min\<close> on \<open>int\<close>, and \<open>std::min<uint32_t>\<close>, as the
  standard library writes them: \<open>max(a, b) = (a < b) ? b : a\<close> and
  \<open>min(a, b) = (b < a) ? b : a\<close>.\<close>

definition max_int :: "cint \<Rightarrow> cint \<Rightarrow> cint" where
  "max_int a b = (if a <s b then b else a)"

definition min_int :: "cint \<Rightarrow> cint \<Rightarrow> cint" where
  "min_int a b = (if b <s a then b else a)"

text \<open>Division of \<open>int\<close> by \<open>int\<close>: the quotient is truncated towards zero.\<close>

definition div_int :: "cint \<Rightarrow> cint \<Rightarrow> cint" where
  "div_int a b = word_of_int (sint a sdiv sint b)"

definition min_u32 :: "u32 \<Rightarrow> u32 \<Rightarrow> u32" where
  "min_u32 a b = (if b < a then b else a)"

section \<open>Bit readers (lines 29-59)\<close>

text \<open>
  \<open>data[i]\<close> through the raw pointer: the byte when \<open>i\<close> is inside the buffer.
\<close>

definition byte_at :: "u8 list \<Rightarrow> u64 \<Rightarrow> fault + u8" where
  "byte_at data i = (if unat i < length data then Inr (data ! unat i) else Inl OutOfBounds)"

text \<open>
  One iteration of the loop of \<open>read_bits_msb\<close> (lines 33-36): \<open>i\<close> is the loop counter,
  \<open>val\<close> the accumulator, a \<open>uint32_t\<close>. The byte is promoted to \<open>int\<close> before the shift
  by \<open>7 - (p & 7)\<close>, a count between 0 and 7, which leaves its value unchanged.
\<close>

definition read_bits_msb_step :: "u8 list \<Rightarrow> u64 \<Rightarrow> u64 \<Rightarrow> nat \<Rightarrow> u32 \<Rightarrow> fault + u32" where
  "read_bits_msb_step data total_bits bitpos i val =
     (let p = bitpos + of_nat i in
      if p < total_bits then
        (case byte_at data (drop_bit 3 p) of
           Inl e \<Rightarrow> Inl e
         | Inr byte \<Rightarrow>
             (let bit = drop_bit (unat (7 - (p AND 7))) byte AND 1
              in Inr (push_bit 1 val OR ucast bit)))
      else Inr (push_bit 1 val OR 0))"

text \<open>The loop \<open>for (int i = 0; i < nbits; ++i)\<close>, from counter \<open>i\<close> to \<open>n\<close>.\<close>

function read_bits_msb_loop :: "u8 list \<Rightarrow> u64 \<Rightarrow> u64 \<Rightarrow> nat \<Rightarrow> nat \<Rightarrow> u32 \<Rightarrow> fault + u32" where
  "read_bits_msb_loop data total_bits bitpos n i val =
     (if i < n then
        (case read_bits_msb_step data total_bits bitpos i val of
           Inl e \<Rightarrow> Inl e
         | Inr val' \<Rightarrow> read_bits_msb_loop data total_bits bitpos n (Suc i) val')
      else Inr val)"
  by pat_completeness auto
termination
  by (relation "measure (\<lambda>(data, total_bits, bitpos, n, i, val). n - i)") auto

definition read_bits_msb :: "u8 list \<Rightarrow> u64 \<Rightarrow> u64 \<Rightarrow> cint \<Rightarrow> fault + u32" where
  "read_bits_msb data total_bits bitpos nbits =
     read_bits_msb_loop data total_bits bitpos (nat (sint nbits)) 0 0"

text \<open>
  One iteration of the loop of \<open>read_bits_lsb\<close> (lines 49-56). The accumulator is a
  \<open>size_t\<close>; \<open>bit << i\<close> is a shift of the bit promoted to \<open>int\<close>, and the result is
  converted to \<open>size_t\<close> (sign extension) before the OR.
\<close>

definition read_bits_lsb_step :: "u8 list \<Rightarrow> u64 \<Rightarrow> u64 \<Rightarrow> nat \<Rightarrow> u64 \<Rightarrow> fault + u64" where
  "read_bits_lsb_step data total_bits bitpos i val =
     (let p = bitpos + of_nat i in
      if p < total_bits then
        (let bidx = drop_bit 3 p;
             bit_in_byte = (ucast (p AND 7) :: u8) in
         case byte_at data bidx of
           Inl e \<Rightarrow> Inl e
         | Inr byte \<Rightarrow>
             (let bit = drop_bit (unat bit_in_byte) byte AND 1
              in Inr (val OR scast (shl_int (ucast bit) (int i)))))
      else Inr (val OR scast (shl_int 0 (int i))))"

function read_bits_lsb_loop :: "u8 list \<Rightarrow> u64 \<Rightarrow> u64 \<Rightarrow> nat \<Rightarrow> nat \<Rightarrow> u64 \<Rightarrow> fault + u64" where
  "read_bits_lsb_loop data total_bits bitpos n i val =
     (if i < n then
        (case read_bits_lsb_step data total_bits bitpos i val of
           Inl e \<Rightarrow> Inl e
         | Inr val' \<Rightarrow> read_bits_lsb_loop data total_bits bitpos n (Suc i) val')
      else Inr val)"
  by pat_completeness auto
termination
  by (relation "measure (\<lambda>(data, total_bits, bitpos, n, i, val). n - i)") auto

text \<open>The function returns \<open>uint32_t\<close>: the \<open>size_t\<close> accumulator is truncated.\<close>

definition read_bits_lsb :: "u8 list \<Rightarrow> u64 \<Rightarrow> u64 \<Rightarrow> cint \<Rightarrow> fault + u32" where
  "read_bits_lsb data total_bits bitpos nbits =
     (case read_bits_lsb_loop data total_bits bitpos (nat (sint nbits)) 0 0 of
        Inl e \<Rightarrow> Inl e
      | Inr val \<Rightarrow> Inr (ucast val))"

section \<open>Pixel endianness (lines 61-75)\<close>

text \<open>The mask \<open>(1ull << bpp) - 1ull\<close> of lines 62 and 74.\<close>

definition mask_bpp :: "cint \<Rightarrow> u64" where
  "mask_bpp bpp = shl_u64 1 (sint bpp) - 1"

text \<open>
  The first loop (lines 65-68) stores \<open>nbytes\<close> bytes of the pixel, most significant
  first, in the local array \<open>bytes[8]\<close>; the second (lines 71-73) joins them in the
  reverse order. An index outside the eight bytes is out of bounds.
\<close>

function adjust_split_loop :: "u64 \<Rightarrow> nat \<Rightarrow> nat \<Rightarrow> u8 list \<Rightarrow> fault + u8 list" where
  "adjust_split_loop pixel_val nbytes i bytes =
     (if i < nbytes then
        (if i < length bytes then
           adjust_split_loop pixel_val nbytes (Suc i)
             (bytes[i := ucast (shr_u64 pixel_val (int ((nbytes - 1 - i) * 8)) AND 0xFF)])
         else Inl OutOfBounds)
      else Inr bytes)"
  by pat_completeness auto
termination
  by (relation "measure (\<lambda>(pixel_val, nbytes, i, bytes). nbytes - i)") auto

function adjust_join_loop :: "u8 list \<Rightarrow> nat \<Rightarrow> nat \<Rightarrow> u64 \<Rightarrow> fault + u64" where
  "adjust_join_loop bytes nbytes i out =
     (if i < nbytes then
        (if nbytes - 1 - i < length bytes then
           adjust_join_loop bytes nbytes (Suc i)
             (push_bit 8 out OR ucast (bytes ! (nbytes - 1 - i)))
         else Inl OutOfBounds)
      else Inr out)"
  by pat_completeness auto
termination
  by (relation "measure (\<lambda>(bytes, nbytes, i, out). nbytes - i)") auto

definition adjust_endianness_pixel :: "u64 \<Rightarrow> cint \<Rightarrow> bool \<Rightarrow> fault + u64" where
  "adjust_endianness_pixel pixel_val bpp little_endian =
     (if \<not> little_endian \<or> bpp \<le>s 8 then
        Inr (pixel_val AND (if 64 \<le>s bpp then NOT 0 else mask_bpp bpp))
      else
        (let nbytes = (ucast (div_int (bpp + 7) 8) :: u8) in
         case adjust_split_loop pixel_val (unat nbytes) 0 (replicate 8 0) of
           Inl e \<Rightarrow> Inl e
         | Inr bytes \<Rightarrow>
             (case adjust_join_loop bytes (unat nbytes) 0 0 of
                Inl e \<Rightarrow> Inl e
              | Inr out \<Rightarrow> Inr (out AND mask_bpp bpp))))"

section \<open>Presets and viewer state (lines 78-123)\<close>

record Field =
  name :: char
  bits :: cint

record Preset =
  label :: string
  bpps :: "cint list"
  fields' :: "Field list"
  lsb_order :: bool

record ViewerState =
  data :: "u8 list"
  filename :: string
  stofs :: cint
  width_px :: cint
  bpp :: cint
  bit_align :: cint
  preset_idx :: cint
  bit_order_msb :: bool
  byte_order_le :: bool

section \<open>Scaling a field to eight bits (lines 125-135)\<close>

definition scale_to_8 :: "u64 \<Rightarrow> u8 \<Rightarrow> u8" where
  "scale_to_8 raw bits' =
     (if bits' = 0 then 0
      else if 8 \<le> bits' then
        (if bits' = 8 then ucast (raw AND 0xFF)
         else ucast (shr_u64 raw (uint bits' - 8) AND 0xFF))
      else
        (let maxv = shl_u64 1 (uint bits') - 1
         in ucast ((raw * 255 + maxv div 2) div maxv)))"

section \<open>The renderer (lines 138-203)\<close>

text \<open>
  The body of the loop over \<open>preset.fields\<close> (lines 185-199). The state is
  \<open>cur_shift\<close> and the four channels.
\<close>

type_synonym rgba = "u8 \<times> u8 \<times> u8 \<times> u8"

definition decode_field :: "u64 \<Rightarrow> Field \<Rightarrow> cint \<times> rgba \<Rightarrow> cint \<times> rgba" where
  "decode_field pixel_val f st =
     (case st of (cur_shift, r, g, b, a) \<Rightarrow>
        (let use = min_int (bits f) cur_shift;
             rawcomp = (if 0 <s cur_shift \<and> 0 <s use
                        then shr_u64 pixel_val (sint (cur_shift - use)) AND (shl_u64 1 (sint use) - 1)
                        else 0);
             cur_shift' = cur_shift - use;
             val8 = scale_to_8 rawcomp (ucast use)
         in if name f = CHR ''r'' then (cur_shift', val8, g, b, a)
            else if name f = CHR ''g'' then (cur_shift', r, val8, b, a)
            else if name f = CHR ''b'' then (cur_shift', r, g, val8, a)
            else if name f = CHR ''a'' then (cur_shift', r, g, b, val8)
            else if name f = CHR ''y'' then (cur_shift', val8, val8, val8, a)
            else (cur_shift', 0, 0, 0, a)))"

primrec decode_fields :: "u64 \<Rightarrow> Field list \<Rightarrow> cint \<times> rgba \<Rightarrow> cint \<times> rgba" where
  "decode_fields pixel_val [] st = st"
| "decode_fields pixel_val (f # fs) st = decode_fields pixel_val fs (decode_field pixel_val f st)"

text \<open>Lines 172-200 for one pixel: read, correct the byte order, split into channels.\<close>

definition decode_pixel :: "ViewerState \<Rightarrow> Preset \<Rightarrow> u64 \<Rightarrow> u64 \<Rightarrow> fault + rgba" where
  "decode_pixel s preset total_bits bitpos =
     (case (if bit_order_msb s then read_bits_msb (data s) total_bits bitpos (bpp s)
            else read_bits_lsb (data s) total_bits bitpos (bpp s)) of
        Inl e \<Rightarrow> Inl e
      | Inr v \<Rightarrow>
          (case adjust_endianness_pixel (ucast v) (bpp s) (byte_order_le s) of
             Inl e \<Rightarrow> Inl e
           | Inr pixel_val \<Rightarrow>
               Inr (snd (decode_fields pixel_val (fields' preset) (bpp s, 255, 255, 255, 255)))))"

text \<open>The four stores through \<open>dst = &out_pixels[i]\<close>.\<close>

definition write4 :: "u8 list \<Rightarrow> nat \<Rightarrow> rgba \<Rightarrow> fault + u8 list" where
  "write4 out i px =
     (case px of (r, g, b, a) \<Rightarrow>
        if i + 3 < length out
        then Inr (out[i := r, i + 1 := g, i + 2 := b, i + 3 := a])
        else Inl OutOfBounds)"

text \<open>
  The loop of lines 163-202, from pixel \<open>p\<close> on: \<open>bound\<close> is \<open>rows_needed * width\<close>, a
  \<open>uint32_t\<close> product, and \<open>bitpos\<close> the bit cursor.
\<close>

function render_loop ::
  "ViewerState \<Rightarrow> Preset \<Rightarrow> u64 \<Rightarrow> u64 \<Rightarrow> u32 \<Rightarrow> u32 \<Rightarrow> u32 \<Rightarrow> u64 \<Rightarrow> u8 list \<Rightarrow> fault + u8 list" where
  "render_loop s preset total_bits pixels_available width bound p bitpos out_pixels =
     (if p < bound then
        (let x = p mod width;
             y = p div width;
             dst = unat ((y * width + x) * 4)
         in if pixels_available \<le> ucast p then
              (case write4 out_pixels dst (0, 0, 0, 0) of
                 Inl e \<Rightarrow> Inl e
               | Inr out' \<Rightarrow>
                   render_loop s preset total_bits pixels_available width bound (p + 1) bitpos out')
            else
              (case decode_pixel s preset total_bits bitpos of
                 Inl e \<Rightarrow> Inl e
               | Inr px \<Rightarrow>
                   (case write4 out_pixels dst px of
                      Inl e \<Rightarrow> Inl e
                    | Inr out' \<Rightarrow>
                        render_loop s preset total_bits pixels_available width bound (p + 1)
                          (bitpos + scast (bpp s)) out')))
      else Inr out_pixels)"
  by pat_completeness auto
termination
proof -
  have step: "unat bound - unat (p + 1) < unat bound - unat p" if "p < bound" for p bound :: u32
  proof -
    from that have lt: "unat p < unat bound"
      by (simp add: word_less_nat_alt)
    moreover have "unat bound < 2 ^ 32"
      using unsigned_less [of bound] by simp
    ultimately have "unat (p + 1) = unat p + 1"
      by (simp add: unat_word_ariths)
    with lt show ?thesis by simp
  qed
  show ?thesis
    by (relation "measure (\<lambda>(s, preset, total_bits, pixels_available, width, bound, p, bitpos,
                              out_pixels). unat bound - unat p)")
       (auto simp: step)
qed

text \<open>
  The locals of \<open>render_viewport\<close>, in the order of lines 140-156. \<open>total_bits\<close>,
  \<open>start_bit\<close> and \<open>pixels_available\<close> are \<open>size_t\<close>; \<open>start_bit\<close> is computed in
  \<open>int\<close> and converted. \<open>width\<close> and \<open>pixels_to_render\<close> are \<open>int\<close>. \<open>actual_pixels\<close> is
  the \<open>uint32_t\<close> minimum of both operands converted to \<open>uint32_t\<close>, and \<open>rows_needed\<close>
  is computed in \<open>uint32_t\<close>.
\<close>

definition total_bits_of :: "ViewerState \<Rightarrow> u64" where
  "total_bits_of s = of_nat (length (data s)) * 8"

definition start_bit_of :: "ViewerState \<Rightarrow> u64" where
  "start_bit_of s = scast (stofs s * 8 + bit_align s)"

definition width_of :: "ViewerState \<Rightarrow> cint" where
  "width_of s = max_int 1 (width_px s)"

definition pixels_to_render_of :: "ViewerState \<Rightarrow> cint \<Rightarrow> cint" where
  "pixels_to_render_of s rows = rows * width_of s"

definition pixels_available_of :: "ViewerState \<Rightarrow> u64" where
  "pixels_available_of s = (total_bits_of s - start_bit_of s) div scast (bpp s)"

definition actual_pixels_of :: "ViewerState \<Rightarrow> cint \<Rightarrow> u32" where
  "actual_pixels_of s rows = min_u32 (pixels_to_render_of s rows) (ucast (pixels_available_of s))"

definition rows_needed_of :: "ViewerState \<Rightarrow> cint \<Rightarrow> u32" where
  "rows_needed_of s rows = (actual_pixels_of s rows + width_of s - 1) div width_of s"

text \<open>
  \<open>render_viewport\<close>: the result is the pair of the two output parameters,
  \<open>out_pixels\<close> and \<open>out_rows_rendered\<close>. Line 149 divides by \<open>s.bpp\<close> converted to
  \<open>size_t\<close>; line 158 sizes the raster by a \<open>uint32_t\<close> product.
\<close>

definition render_viewport :: "ViewerState \<Rightarrow> Preset \<Rightarrow> cint \<Rightarrow> fault + (u8 list \<times> u32)" where
  "render_viewport s preset rows =
     (if total_bits_of s \<le> start_bit_of s then Inr ([], 0)
      else if (scast (bpp s) :: u64) = 0 then Inl DivideByZero
      else if pixels_available_of s = 0 then Inr ([], 0)
      else
        (case render_loop s preset (total_bits_of s) (pixels_available_of s) (width_of s)
                (rows_needed_of s rows * width_of s) 0 (start_bit_of s)
                (replicate (unat (rows_needed_of s rows * width_of s * 4)) 0) of
           Inl e \<Rightarrow> Inl e
         | Inr out \<Rightarrow> Inr (out, rows_needed_of s rows)))"

text \<open>
  The state a \<open>ViewerState\<close> is initialised to (lines 113-123), and the built-in presets
  of \<open>build_presets\<close> (lines 86-110); \<open>lsb_order\<close> keeps its default.
\<close>

definition initial_state :: ViewerState where
  "initial_state =
     \<lparr>data = [], filename = [], stofs = 0, width_px = 256, bpp = 8, bit_align = 0,
      preset_idx = 3, bit_order_msb = True, byte_order_le = False\<rparr>"

definition mk_field :: "char \<Rightarrow> cint \<Rightarrow> Field" where
  "mk_field c n = \<lparr>name = c, bits = n\<rparr>"

definition mk_preset :: "string \<Rightarrow> cint list \<Rightarrow> Field list \<Rightarrow> Preset" where
  "mk_preset l bs fs = \<lparr>label = l, bpps = bs, fields' = fs, lsb_order = False\<rparr>"

definition build_presets :: "Preset list" where
  "build_presets =
     [mk_preset ''1-bit: Monochrome (MSB)'' [1] [mk_field CHR ''y'' 1],
      mk_preset ''4-bit: Grayscale'' [4] [mk_field CHR ''y'' 4],
      mk_preset ''4-bit: 2R-1G-1B'' [4] [mk_field CHR ''r'' 2, mk_field CHR ''g'' 1, mk_field CHR ''b'' 1],
      mk_preset ''8-bit: Grayscale'' [8] [mk_field CHR ''y'' 8],
      mk_preset ''8-bit: R3-G3-B2'' [8] [mk_field CHR ''r'' 3, mk_field CHR ''g'' 3, mk_field CHR ''b'' 2],
      mk_preset ''8-bit: B3-G3-R2'' [8] [mk_field CHR ''b'' 3, mk_field CHR ''g'' 3, mk_field CHR ''r'' 2],
      mk_preset ''8-bit: R2-G3-B3'' [8] [mk_field CHR ''r'' 2, mk_field CHR ''g'' 3, mk_field CHR ''b'' 3],
      mk_preset ''8-bit: A2-R2-G2-B2'' [8]
        [mk_field CHR ''a'' 2, mk_field CHR ''r'' 2, mk_field CHR ''g'' 2, mk_field CHR ''b'' 2],
      mk_preset ''8-bit: A1-R2-G3-B2'' [8]
        [mk_field CHR ''a'' 1, mk_field CHR ''r'' 2, mk_field CHR ''g'' 3, mk_field CHR ''b'' 2],
      mk_preset ''16-bit: R5-G6-B5'' [16] [mk_field CHR ''r'' 5, mk_field CHR ''g'' 6, mk_field CHR ''b'' 5],
      mk_preset ''16-bit: A1-R5-G5-B5'' [16]
        [mk_field CHR ''a'' 1, mk_field CHR ''r'' 5, mk_field CHR ''g'' 5, mk_field CHR ''b'' 5],
      mk_preset ''16-bit: R4-G4-B4-A4'' [16]
        [mk_field CHR ''r'' 4, mk_field CHR ''g'' 4, mk_field CHR ''b'' 4, mk_field CHR ''a'' 4],
      mk_preset ''16-bit: R3-G4-B3'' [16] [mk_field CHR ''r'' 3, mk_field CHR ''g'' 4, mk_field CHR ''b'' 3],
      mk_preset ''16-bit: B3-G4-R3'' [16] [mk_field CHR ''b'' 3, mk_field CHR ''g'' 4, mk_field CHR ''r'' 3],
      mk_preset ''16-bit: A1-R3-G3-B3'' [16]
        [mk_field CHR ''a'' 1, mk_field CHR ''r'' 3, mk_field CHR ''g'' 3, mk_field CHR ''b'' 3],
      mk_preset ''24-bit: R-G-B'' [24] [mk_field CHR ''r'' 8, mk_field CHR ''g'' 8, mk_field CHR ''b'' 8],
      mk_preset ''24-bit: B-G-R'' [24] [mk_field CHR ''b'' 8, mk_field CHR ''g'' 8, mk_field CHR ''r'' 8],
      mk_preset ''32-bit: R-G-B-A'' [32]
        [mk_field CHR ''r'' 8, mk_field CHR ''g'' 8, mk_field CHR ''b'' 8, mk_field CHR ''a'' 8],
      mk_preset ''32-bit: A-R-G-B'' [32]
        [mk_field CHR ''a'' 8, mk_field CHR ''r'' 8, mk_field CHR ''g'' 8, mk_field CHR ''b'' 8],
      mk_preset ''32-bit: A-B-G-R'' [32]
        [mk_field CHR ''a'' 8, mk_field CHR ''b'' 8, mk_field CHR ''g'' 8, mk_field CHR ''r'' 8],
      mk_preset ''32-bit: B-G-R-A'' [32]
        [mk_field CHR ''b'' 8, mk_field CHR ''g'' 8, mk_field CHR ''r'' 8, mk_field CHR ''a'' 8]]"

text \<open>The presets the scenarios use: \<open>{GRAY:4}\<close> and \<open>{GRAY:8}\<close>.\<close>

definition preset_gray4 :: Preset where
  "preset_gray4 = build_presets ! 1"

definition preset_gray8 :: Preset where
  "preset_gray8 = build_presets ! 3"

section \<open>The bit readers of the specification\<close>

text \<open>
  Section 4.1 of the specification, in its own words, for comparison with the readers
  of the source: the bit at absolute position \<open>p\<close> is \<open>(buffer[p/8] >> (7 - p%8)) & 1\<close>
  under MSB_FIRST and \<open>(buffer[p/8] >> (p%8)) & 1\<close> under LSB_FIRST, and 0 at
  \<open>p >= total_bits\<close>; the MSB_FIRST value shifts left and ORs each successive bit, the
  LSB_FIRST value places the i-th bit read at bit position \<open>i\<close>. The value is an unsigned
  number of up to 64 bits.
\<close>

definition spec_bit_msb :: "u8 list \<Rightarrow> nat \<Rightarrow> nat" where
  "spec_bit_msb buffer p =
     (if p < 8 * length buffer then (unat (buffer ! (p div 8)) div 2 ^ (7 - p mod 8)) mod 2 else 0)"

definition spec_bit_lsb :: "u8 list \<Rightarrow> nat \<Rightarrow> nat" where
  "spec_bit_lsb buffer p =
     (if p < 8 * length buffer then (unat (buffer ! (p div 8)) div 2 ^ (p mod 8)) mod 2 else 0)"

primrec spec_read_bits_msb :: "u8 list \<Rightarrow> nat \<Rightarrow> nat \<Rightarrow> nat" where
  "spec_read_bits_msb buffer start 0 = 0"
| "spec_read_bits_msb buffer start (Suc n) =
     2 * spec_read_bits_msb buffer start n + spec_bit_msb buffer (start + n)"

primrec spec_read_bits_lsb :: "u8 list \<Rightarrow> nat \<Rightarrow> nat \<Rightarrow> nat" where
  "spec_read_bits_lsb buffer start 0 = 0"
| "spec_read_bits_lsb buffer start (Suc n) =
     spec_read_bits_lsb buffer start n + 2 ^ n * spec_bit_lsb buffer (start + n)"

section \<open>The window arithmetic of the specification\<close>

text \<open>
  Section 4.5 of the specification, steps 1, 3 and 5, in its own words and over the
  unbounded integers, for comparison with the machine values of \<open>render_viewport\<close>:
  \<open>start_bit = byte_offset * 8 + bit_align\<close>, \<open>total_bits = len(buffer) * 8\<close>,
  \<open>width = max(1, row_width_px)\<close> and
  \<open>pixels_available = (total_bits - start_bit) / bits_per_pixel\<close>. The fields of the
  configuration are read as the integers they hold.
\<close>

definition spec_start_bit :: "ViewerState \<Rightarrow> int" where
  "spec_start_bit s = sint (stofs s) * 8 + sint (bit_align s)"

definition spec_total_bits :: "ViewerState \<Rightarrow> int" where
  "spec_total_bits s = int (length (data s)) * 8"

definition spec_width :: "ViewerState \<Rightarrow> int" where
  "spec_width s = max 1 (sint (width_px s))"

definition spec_pixels_available :: "ViewerState \<Rightarrow> int" where
  "spec_pixels_available s = (spec_total_bits s - spec_start_bit s) div sint (bpp s)"

lemma byte_index_in_range:
  assumes "p < (of_nat L * 8 :: u64)"
  shows "unat (drop_bit 3 p) < L"
proof -
  have "unat (of_nat L * 8 :: u64) = (L * 8) mod 2 ^ 64"
    by (simp add: unat_word_ariths unat_of_nat mod_mult_left_eq)
  also have "\<dots> \<le> L * 8"
    by (rule mod_less_eq_dividend)
  finally have "unat p < L * 8"
    using assms by (simp add: word_less_nat_alt)
  then have "unat p div 8 < L"
    by (simp add: less_mult_imp_div_less)
  then show ?thesis
    by (simp add: drop_bit_eq_div unat_div)
qed

lemma byte_at_in_range:
  "p < (of_nat (length d) * 8 :: u64) \<Longrightarrow> \<exists>b. byte_at d (drop_bit 3 p) = Inr b"
  by (simp add: byte_at_def byte_index_in_range)

lemma read_bits_msb_step_total:
  "\<exists>v. read_bits_msb_step d (of_nat (length d) * 8) bitpos i val = Inr v"
proof (cases "bitpos + of_nat i < (of_nat (length d) * 8 :: u64)")
  case True
  from byte_at_in_range [OF this] obtain b
    where "byte_at d (drop_bit 3 (bitpos + of_nat i)) = Inr b" ..
  with True show ?thesis
    by (simp add: read_bits_msb_step_def Let_def)
next
  case False
  then show ?thesis
    by (simp add: read_bits_msb_step_def Let_def)
qed

lemma read_bits_lsb_step_total:
  "\<exists>v. read_bits_lsb_step d (of_nat (length d) * 8) bitpos i val = Inr v"
proof (cases "bitpos + of_nat i < (of_nat (length d) * 8 :: u64)")
  case True
  from byte_at_in_range [OF this] obtain b
    where "byte_at d (drop_bit 3 (bitpos + of_nat i)) = Inr b" ..
  with True show ?thesis
    by (simp add: read_bits_lsb_step_def Let_def)
next
  case False
  then show ?thesis
    by (simp add: read_bits_lsb_step_def Let_def)
qed

declare read_bits_msb_loop.simps [simp del] read_bits_lsb_loop.simps [simp del]

lemma read_bits_msb_loop_total:
  "\<exists>v. read_bits_msb_loop d (of_nat (length d) * 8) bitpos n i val = Inr v"
proof (induction "n - i" arbitrary: i val)
  case 0
  then show ?case
    by (simp add: read_bits_msb_loop.simps [of _ _ _ n i])
next
  case (Suc k)
  obtain v where v: "read_bits_msb_step d (of_nat (length d) * 8) bitpos i val = Inr v"
    using read_bits_msb_step_total by blast
  from Suc.hyps(2) have "i < n" "k = n - Suc i" by simp_all
  with Suc.hyps(1) [of "Suc i" v] v show ?case
    by (simp add: read_bits_msb_loop.simps [of _ _ _ n i])
qed

lemma read_bits_lsb_loop_total:
  "\<exists>v. read_bits_lsb_loop d (of_nat (length d) * 8) bitpos n i val = Inr v"
proof (induction "n - i" arbitrary: i val)
  case 0
  then show ?case
    by (simp add: read_bits_lsb_loop.simps [of _ _ _ n i])
next
  case (Suc k)
  obtain v where v: "read_bits_lsb_step d (of_nat (length d) * 8) bitpos i val = Inr v"
    using read_bits_lsb_step_total by blast
  from Suc.hyps(2) have "i < n" "k = n - Suc i" by simp_all
  with Suc.hyps(1) [of "Suc i" v] v show ?case
    by (simp add: read_bits_lsb_loop.simps [of _ _ _ n i])
qed

lemma read_bits_msb_total:
  "\<exists>v. read_bits_msb d (of_nat (length d) * 8) bitpos nbits = Inr v"
  by (simp add: read_bits_msb_def read_bits_msb_loop_total)

lemma read_bits_lsb_total:
  "\<exists>v. read_bits_lsb d (of_nat (length d) * 8) bitpos nbits = Inr v"
proof -
  obtain v where "read_bits_lsb_loop d (of_nat (length d) * 8) bitpos (nat (sint nbits)) 0 0 = Inr v"
    using read_bits_lsb_loop_total by blast
  then show ?thesis
    by (simp add: read_bits_lsb_def)
qed

lemma sint32_range: "- (2 ^ 31) \<le> sint (b :: 32 word) \<and> sint b < 2 ^ 31"
  using sint_ge [of b] sint_lt [of b] by simp

declare adjust_split_loop.simps [simp del] adjust_join_loop.simps [simp del]

lemma adjust_split_loop_total:
  "nbytes \<le> length bytes \<Longrightarrow>
   \<exists>bs. adjust_split_loop pv nbytes i bytes = Inr bs \<and> length bs = length bytes"
proof (induction "nbytes - i" arbitrary: i bytes)
  case 0
  then show ?case
    by (simp add: adjust_split_loop.simps [of _ nbytes i])
next
  case (Suc k)
  from Suc.hyps(2) have "i < nbytes" "k = nbytes - Suc i" by simp_all
  with Suc.hyps(1) [of "Suc i" "bytes[i := ucast (shr_u64 pv (int ((nbytes - 1 - i) * 8)) AND 0xFF)]"]
    Suc.prems
  show ?case
    by (simp add: adjust_split_loop.simps [of _ nbytes i])
qed

lemma adjust_join_loop_total:
  "nbytes \<le> length bytes \<Longrightarrow> \<exists>out. adjust_join_loop bytes nbytes i out0 = Inr out"
proof (induction "nbytes - i" arbitrary: i out0)
  case 0
  then show ?case
    by (simp add: adjust_join_loop.simps [of _ nbytes i])
next
  case (Suc k)
  from Suc.hyps(2) have "i < nbytes" "k = nbytes - Suc i" by simp_all
  with Suc.hyps(1) [of "Suc i" "push_bit 8 out0 OR ucast (bytes ! (nbytes - 1 - i))"] Suc.prems
  show ?case
    by (simp add: adjust_join_loop.simps [of _ nbytes i])
qed

lemma nbytes_le_8:
  assumes "8 < sint (b :: cint)" "sint b \<le> 64"
  shows "unat (ucast (div_int (b + 7) 8) :: u8) \<le> 8"
proof -
  have "sint (b + 7) = signed_take_bit 31 (sint b + 7)"
    by (simp add: sint_word_add)
  also have "\<dots> = sint b + 7"
    using assms by (simp add: signed_take_bit_int_eq_self)
  finally have s: "sint (b + 7) = sint b + 7" .
  define m where "m = (sint b + 7) div 8"
  have m: "0 \<le> m" "m \<le> 8"
    using assms by (simp_all add: m_def)
  have "div_int (b + 7) 8 = word_of_int m"
    using assms by (simp add: div_int_def s m_def signed_divide_int_def sgn_if)
  then have "(ucast (div_int (b + 7) 8) :: u8) = word_of_int m"
    by (simp add: ucast_down_wi is_down)
  moreover have "unat (word_of_int m :: u8) = nat m"
    using m by (simp add: unsigned_of_int take_bit_int_eq_self)
  ultimately show ?thesis
    using m by simp
qed

lemma adjust_endianness_pixel_total:
  assumes "\<not> le \<or> sint bpp' \<le> 64"
  shows "\<exists>v. adjust_endianness_pixel pv bpp' le = Inr v"
proof (cases "\<not> le \<or> bpp' \<le>s 8")
  case True
  then show ?thesis
    by (simp add: adjust_endianness_pixel_def)
next
  case False
  then have "8 < sint bpp'" and "sint bpp' \<le> 64"
    using assms by (simp_all add: word_sle_eq)
  from nbytes_le_8 [OF this]
  have n: "unat (ucast (div_int (bpp' + 7) 8) :: u8) \<le> length (replicate 8 (0 :: u8))"
    by simp
  from adjust_split_loop_total [OF n] obtain bs
    where bs: "adjust_split_loop pv (unat (ucast (div_int (bpp' + 7) 8) :: u8)) 0 (replicate 8 0) = Inr bs"
      and "length bs = length (replicate 8 (0 :: u8))"
    by blast
  with n have "unat (ucast (div_int (bpp' + 7) 8) :: u8) \<le> length bs"
    by simp
  from adjust_join_loop_total [OF this] obtain out
    where "adjust_join_loop bs (unat (ucast (div_int (bpp' + 7) 8) :: u8)) 0 0 = Inr out"
    by blast
  with bs False show ?thesis
    by (simp add: adjust_endianness_pixel_def Let_def)
qed

lemma decode_pixel_total:
  assumes "\<not> byte_order_le s \<or> sint (bpp s) \<le> 64"
  shows "\<exists>px. decode_pixel s preset (total_bits_of s) bitpos = Inr px"
proof -
  have "\<exists>v. (if bit_order_msb s
             then read_bits_msb (data s) (total_bits_of s) bitpos (bpp s)
             else read_bits_lsb (data s) (total_bits_of s) bitpos (bpp s)) = Inr v"
    by (simp add: total_bits_of_def read_bits_msb_total read_bits_lsb_total)
  then obtain v where v: "(if bit_order_msb s
                      then read_bits_msb (data s) (total_bits_of s) bitpos (bpp s)
                      else read_bits_lsb (data s) (total_bits_of s) bitpos (bpp s)) = Inr v" ..
  obtain w where "adjust_endianness_pixel (ucast v) (bpp s) (byte_order_le s) = Inr w"
    using adjust_endianness_pixel_total [OF assms] by blast
  with v have "decode_pixel s preset (total_bits_of s) bitpos
                 = Inr (snd (decode_fields w (fields' preset) (bpp s, 255, 255, 255, 255)))"
    by (simp add: decode_pixel_def)
  then show ?thesis ..
qed

declare render_loop.simps [simp del]

lemma unat_ucast_32_64: "unat (ucast (b :: u32) :: u64) = unat b"
proof -
  have "unat b < 2 ^ 64"
    using unsigned_less [of b, where ?'a = nat] by simp
  then show ?thesis
    by (simp add: unsigned_ucast_eq take_bit_nat_eq_self)
qed

lemma le_ucast_32_64: "((a :: u64) \<le> ucast (p :: u32)) = (unat a \<le> unat p)"
  by (simp add: word_le_nat_alt unat_ucast_32_64)

lemma unat_succ_below:
  assumes "(p :: u32) < bound"
  shows "unat (p + 1) = Suc (unat p)"
proof -
  from assms have "unat p < unat bound"
    by (simp add: word_less_nat_alt)
  moreover have "unat bound < 2 ^ 32"
    using unsigned_less [of bound, where ?'a = nat] by simp
  ultimately show ?thesis
    by (simp add: unat_word_ariths)
qed

lemma pixel_offset:
  assumes "(p :: u32) < bound" "4 * unat bound < 2 ^ 32"
  shows "unat ((p div width * width + p mod width) * 4) = 4 * unat p"
proof -
  have "p div width * width + p mod width = p"
    by (rule word_mod_div_equality)
  moreover from assms have "unat p * 4 < 2 ^ 32"
    by (simp add: word_less_nat_alt)
  then have "unat (p * 4) = unat p * 4"
    by (simp add: unat_word_ariths)
  ultimately show ?thesis by simp
qed

lemma write4_in_range:
  "i + 3 < length out \<Longrightarrow>
   write4 out i (r, g, b, a) = Inr (out[i := r, i + 1 := g, i + 2 := b, i + 3 := a])"
  by (simp add: write4_def)

lemma nth_update4:
  "i + 3 < length xs \<Longrightarrow> j < length xs \<Longrightarrow>
   xs[i := r, i + 1 := g, i + 2 := b, i + 3 := a] ! j =
     (if j = i + 3 then a else if j = i + 2 then b else if j = i + 1 then g
      else if j = i then r else xs ! j)"
  by (simp add: nth_list_update)

lemma render_loop_inv:
  assumes B: "4 * unat bound < 2 ^ 32"
    and D: "\<And>bp. \<exists>px. decode_pixel s preset tb bp = Inr px"
  shows "length out = 4 * unat bound \<Longrightarrow>
         (\<forall>j. 4 * unat pa \<le> j \<and> j < length out \<longrightarrow> out ! j = 0) \<Longrightarrow>
         \<exists>out'. render_loop s preset tb pa width bound p bitpos out = Inr out'
                \<and> length out' = 4 * unat bound
                \<and> (\<forall>j. 4 * unat pa \<le> j \<and> j < length out' \<longrightarrow> out' ! j = 0)"
proof (induction "unat bound - unat p" arbitrary: p bitpos out)
  case 0
  then have "\<not> p < bound"
    by (simp add: word_less_nat_alt)
  with 0 show ?case
    by (simp add: render_loop.simps [of _ _ _ _ _ bound p])
next
  case (Suc k)
  from Suc.hyps(2) have lt: "p < bound"
    by (simp add: word_less_nat_alt)
  have suc: "unat (p + 1) = Suc (unat p)"
    by (rule unat_succ_below [OF lt])
  with Suc.hyps(2) have k: "k = unat bound - unat (p + 1)"
    by simp
  have dst: "unat ((p div width * width + p mod width) * 4) = 4 * unat p"
    by (rule pixel_offset [OF lt B])
  from lt have "unat p < unat bound"
    by (simp add: word_less_nat_alt)
  with Suc.prems(1) have inr: "4 * unat p + 3 < length out"
    by simp
  show ?case
  proof (cases "pa \<le> ucast p")
    case True
    then have ge: "unat pa \<le> unat p"
      by (simp add: le_ucast_32_64)
    let ?out1 = "out[4 * unat p := 0, 4 * unat p + 1 := 0, 4 * unat p + 2 := 0, 4 * unat p + 3 := 0]"
    have w: "write4 out (4 * unat p) (0, 0, 0, 0) = Inr ?out1"
      by (rule write4_in_range [OF inr])
    have len: "length ?out1 = 4 * unat bound"
      using Suc.prems(1) by simp
    have z: "\<forall>j. 4 * unat pa \<le> j \<and> j < length ?out1 \<longrightarrow> ?out1 ! j = 0"
    proof (intro allI impI)
      fix j
      assume j: "4 * unat pa \<le> j \<and> j < length ?out1"
      then have jl: "j < length out" by simp
      with Suc.prems(2) j have "out ! j = 0" by simp
      with nth_update4 [OF inr jl, of 0 0 0 0] show "?out1 ! j = 0"
        by (simp only: if_cancel)
    qed
    from Suc.hyps(1) [OF k len z, of bitpos] True w lt dst show ?thesis
      by (simp add: render_loop.simps [of _ _ _ _ _ bound p] Let_def)
  next
    case False
    then have less: "unat p < unat pa"
      by (simp add: le_ucast_32_64)
    obtain px where px: "decode_pixel s preset tb bitpos = Inr px"
      using D by blast
    obtain r g b a where rgba: "px = (r, g, b, a)"
      by (cases px) auto
    let ?out1 = "out[4 * unat p := r, 4 * unat p + 1 := g, 4 * unat p + 2 := b, 4 * unat p + 3 := a]"
    have w: "write4 out (4 * unat p) px = Inr ?out1"
      unfolding rgba by (rule write4_in_range [OF inr])
    have len: "length ?out1 = 4 * unat bound"
      using Suc.prems(1) by simp
    have z: "\<forall>j. 4 * unat pa \<le> j \<and> j < length ?out1 \<longrightarrow> ?out1 ! j = 0"
    proof (intro allI impI)
      fix j
      assume j: "4 * unat pa \<le> j \<and> j < length ?out1"
      then have jl: "j < length out" by simp
      from j less have "j \<noteq> 4 * unat p" "j \<noteq> 4 * unat p + 1" "j \<noteq> 4 * unat p + 2"
        "j \<noteq> 4 * unat p + 3"
        by simp_all
      with nth_update4 [OF inr jl, of r g b a] have "?out1 ! j = out ! j"
        by (simp only: if_False)
      with Suc.prems(2) j show "?out1 ! j = 0"
        by simp
    qed
    from Suc.hyps(1) [OF k len z, of "bitpos + scast (bpp s)"] False w px lt dst show ?thesis
      by (simp add: render_loop.simps [of _ _ _ _ _ bound p] Let_def)
  qed
qed

lemma stb32:
  "0 \<le> k \<Longrightarrow> k < 4294967296 \<Longrightarrow> 0 \<le> (k + 2147483648) mod 4294967296 - (2147483648::int) \<Longrightarrow>
   (k + 2147483648) mod 4294967296 - 2147483648 = k"
proof -
  assume a: "0 \<le> k" "k < 4294967296" "0 \<le> (k + 2147483648) mod 4294967296 - (2147483648::int)"
  show ?thesis
  proof (cases "k < 2147483648")
    case True
    with a have "(k + 2147483648) mod 4294967296 = k + 2147483648"
      by (intro mod_pos_pos_trivial) simp_all
    then show ?thesis by simp
  next
    case False
    with a have "(k + 2147483648 - 4294967296) mod 4294967296 = k + 2147483648 - 4294967296"
      by (intro mod_pos_pos_trivial) simp_all
    then have "(k + 2147483648) mod 4294967296 = k + 2147483648 - 4294967296"
      by (simp only: mod_diff_right_eq [symmetric] mod_self diff_zero mod_mod_trivial)
    with a False show ?thesis by simp
  qed
qed

lemma uint_nonneg_sint: "0 \<le> sint (b :: cint) \<Longrightarrow> uint b = sint b"
proof -
  assume nn: "0 \<le> sint b"
  have s: "sint b = (uint b + 2147483648) mod 4294967296 - 2147483648"
    by (simp add: sint_uint signed_take_bit_eq_take_bit_shift take_bit_eq_mod)
  have r: "0 \<le> uint b" "uint b < 4294967296"
    using uint_bounded [of b] by simp_all
  from nn have "0 \<le> (uint b + 2147483648) mod 4294967296 - 2147483648"
    by (simp only: s)
  then have "(uint b + 2147483648) mod 4294967296 - 2147483648 = uint b"
    by (rule stb32 [OF r])
  then show ?thesis
    by (simp only: s)
qed

lemma int_unat_nonneg_sint: "0 \<le> sint (b :: cint) \<Longrightarrow> int (unat b) = sint b"
  using uint_nonneg_sint [of b] by (simp only: uint_nat)

lemma sint_width_of: "1 \<le> sint (width_of s)"
  by (simp add: width_of_def max_int_def word_sless_alt)

lemma unat_min_u32: "unat (min_u32 a b) = min (unat a) (unat b)"
  by (simp add: min_u32_def word_less_nat_alt min_def)

lemma unat_mult_32: "unat a * unat b < 2 ^ 32 \<Longrightarrow> unat (a * b :: u32) = unat a * unat b"
  by (simp add: unat_word_ariths)

lemma unat_rows_needed:
  fixes a w :: u32
  assumes w: "1 \<le> unat w" and fit: "unat a + unat w < 2 ^ 32"
  shows "unat ((a + w - 1) div w) = (unat a + unat w - 1) div unat w"
proof -
  have "unat (a + w) = unat a + unat w"
    using fit by (simp add: unat_word_ariths)
  moreover have "(1 :: u32) \<le> a + w"
    using w calculation by (simp add: word_le_nat_alt)
  ultimately have "unat (a + w - 1) = unat a + unat w - 1"
    by (simp add: unat_sub)
  then show ?thesis
    by (simp add: unat_div)
qed

lemma ceil_div_bounds:
  fixes a w :: nat
  assumes "1 \<le> w"
  shows "a \<le> (a + w - 1) div w * w" and "(a + w - 1) div w * w < a + w"
proof -
  have e: "(a + w - 1) div w * w + (a + w - 1) mod w = a + w - 1"
    by simp
  have "(a + w - 1) mod w < w"
    using assms by simp
  with e assms show "a \<le> (a + w - 1) div w * w"
    by linarith
  from e assms show "(a + w - 1) div w * w < a + w"
    by linarith
qed

lemma ceil_div_le_rows:
  fixes a w r :: nat
  assumes "1 \<le> w" "a \<le> r * w"
  shows "(a + w - 1) div w \<le> r"
proof -
  from assms have "a + w - 1 < (r + 1) * w"
    by simp
  then have "(a + w - 1) div w < r + 1"
    by (simp only: less_mult_imp_div_less)
  then show ?thesis by simp
qed

lemma sint_scast_32_64: "sint (scast (b :: cint) :: u64) = sint b"
proof -
  have "- (2 ^ 63) \<le> sint b" "sint b < 2 ^ 63"
    using sint32_range [of b] by simp_all
  then show ?thesis
    by (simp add: signed_scast_eq signed_take_bit_int_eq_self)
qed

lemma scast_32_64_eq_0: "((scast (b :: cint) :: u64) = 0) = (b = 0)"
  using sint_scast_32_64 [of b] signed_eq_0_iff [of b, where ?'a = int]
    signed_eq_0_iff [of "scast b :: u64", where ?'a = int] by simp

lemma unat_ucast_64_32: "unat (ucast (a :: u64) :: u32) = unat a mod 2 ^ 32"
  by (simp add: unsigned_ucast_eq take_bit_eq_mod)

lemma render_viewport_sized:
  assumes bpp: "\<not> byte_order_le s \<or> sint (bpp s) \<le> 64" "bpp s \<noteq> 0"
    and start: "start_bit_of s < total_bits_of s"
    and avail: "pixels_available_of s \<noteq> 0"
    and rows: "0 \<le> sint rows"
    and fit: "sint rows * sint (width_of s) < 2 ^ 30"
  shows "\<exists>out. render_viewport s preset rows = Inr (out, rows_needed_of s rows)
           \<and> length out = unat (rows_needed_of s rows) * unat (width_of s) * 4
           \<and> (\<forall>j. 4 * unat (pixels_available_of s) \<le> j \<and> j < length out \<longrightarrow> out ! j = 0)
           \<and> unat (rows_needed_of s rows) =
               (min (unat rows * unat (width_of s)) (unat (pixels_available_of s) mod 2 ^ 32)
                 + unat (width_of s) - 1) div unat (width_of s)
           \<and> unat (rows_needed_of s rows) \<le> unat rows"
proof -
  define w where "w = unat (width_of s)"
  define r where "r = unat rows"
  define a where "a = unat (actual_pixels_of s rows)"
  define rr where "rr = unat (rows_needed_of s rows)"
  have wi: "int w = sint (width_of s)"
    unfolding w_def using sint_width_of [of s] by (simp only: int_unat_nonneg_sint)
  have ri: "int r = sint rows"
    unfolding r_def using rows by (simp only: int_unat_nonneg_sint)
  have w1: "1 \<le> w"
    using wi sint_width_of [of s] by simp
  have "int (r * w) < 2 ^ 30"
    using fit wi ri by simp
  then have rw: "r * w < 2 ^ 30"
    by (simp only: of_nat_less_numeral_power_cancel_iff)
  have ptr: "unat (pixels_to_render_of s rows) = r * w"
    unfolding pixels_to_render_of_def r_def w_def
    using rw by (intro unat_mult_32) (simp add: r_def w_def)
  have a_eq: "a = min (r * w) (unat (pixels_available_of s) mod 2 ^ 32)"
    by (simp add: a_def actual_pixels_of_def unat_min_u32 ptr unat_ucast_64_32)
  then have a_le: "a \<le> r * w"
    by simp
  have "int w < 2 ^ 31"
    using wi sint32_range [of "width_of s"] by simp
  then have w31: "w < 2 ^ 31"
    by (simp only: of_nat_less_numeral_power_cancel_iff)
  have aw: "a + w < 2 ^ 32"
    using a_le rw w31 by simp
  have rr_eq: "rr = (a + w - 1) div w"
    unfolding rr_def rows_needed_of_def a_def w_def
    by (rule unat_rows_needed) (use w1 aw in \<open>simp_all add: w_def a_def\<close>)
  have rr_le: "rr \<le> r"
    unfolding rr_eq by (rule ceil_div_le_rows [OF w1 a_le])
  then have "rr * w \<le> r * w"
    by (rule mult_le_mono1)
  from this rw have rrw: "rr * w < 2 ^ 30"
    by (rule le_less_trans)
  have bound: "unat (rows_needed_of s rows * width_of s) = rr * w"
    unfolding rr_def w_def
    using rrw by (intro unat_mult_32) (simp add: rr_def w_def)
  have B: "4 * unat (rows_needed_of s rows * width_of s) < 2 ^ 32"
    using rrw by (simp add: bound)
  have "unat (rows_needed_of s rows * width_of s) * unat (4 :: u32) < 2 ^ 32"
    using rrw by (simp add: bound)
  then have "unat (rows_needed_of s rows * width_of s * 4)
               = unat (rows_needed_of s rows * width_of s) * unat (4 :: u32)"
    by (rule unat_mult_32)
  then have size: "unat (rows_needed_of s rows * width_of s * 4) = 4 * (rr * w)"
    by (simp add: bound)
  let ?out0 = "replicate (unat (rows_needed_of s rows * width_of s * 4)) (0 :: u8)"
  have len0: "length ?out0 = 4 * unat (rows_needed_of s rows * width_of s)"
    by (simp add: size bound)
  have z0: "\<forall>j. 4 * unat (pixels_available_of s) \<le> j \<and> j < length ?out0 \<longrightarrow> ?out0 ! j = 0"
    by simp
  have D: "\<exists>px. decode_pixel s preset (total_bits_of s) bp = Inr px" for bp
    by (rule decode_pixel_total [OF bpp(1)])
  from render_loop_inv [OF B D len0 z0, of "width_of s" 0 "start_bit_of s"]
  obtain out where out: "render_loop s preset (total_bits_of s) (pixels_available_of s) (width_of s)
                           (rows_needed_of s rows * width_of s) 0 (start_bit_of s) ?out0 = Inr out"
    and len: "length out = 4 * unat (rows_needed_of s rows * width_of s)"
    and z: "\<forall>j. 4 * unat (pixels_available_of s) \<le> j \<and> j < length out \<longrightarrow> out ! j = 0"
    by blast
  have r1: "render_viewport s preset rows = Inr (out, rows_needed_of s rows)"
  proof -
    from start have "\<not> total_bits_of s \<le> start_bit_of s"
      by (simp only: not_le)
    with avail bpp(2) out show ?thesis
      by (simp add: render_viewport_def scast_32_64_eq_0)
  qed
  have r2: "length out = unat (rows_needed_of s rows) * unat (width_of s) * 4"
    using len by (simp add: bound rr_def w_def)
  have r3: "unat (rows_needed_of s rows) =
               (min (unat rows * unat (width_of s)) (unat (pixels_available_of s) mod 2 ^ 32)
                 + unat (width_of s) - 1) div unat (width_of s)"
    using rr_eq a_eq by (simp only: rr_def r_def w_def)
  have r4: "unat (rows_needed_of s rows) \<le> unat rows"
    using rr_le by (simp only: rr_def r_def)
  show ?thesis
    by (intro exI [of _ out] conjI r1 r2 z r3 r4)
qed

section \<open>The machine values and the integers of the specification\<close>

lemma uint_scast_32_64: "uint (scast (b :: cint) :: u64) = sint b mod 2 ^ 64"
  unfolding scast_eq by (simp only: uint_word_of_int_eq take_bit_eq_mod) simp

lemma unat_scast_nonneg: "0 \<le> sint (b :: cint) \<Longrightarrow> unat (scast b :: u64) = nat (sint b)"
proof -
  assume nn: "0 \<le> sint b"
  have "sint b < 2 ^ 64"
    using sint32_range [of b] by simp
  with nn have "sint b mod 2 ^ 64 = sint b"
    by (simp only: mod_pos_pos_trivial)
  then have "uint (scast b :: u64) = sint b"
    by (simp only: uint_scast_32_64)
  then show ?thesis
    by (simp only: unat_eq_nat_uint)
qed

lemma unat_scast_neg:
  assumes "sint (b :: cint) < 0"
  shows "2 ^ 63 \<le> unat (scast b :: u64)"
proof -
  have r: "- (2 ^ 31) \<le> sint b"
    using sint32_range [of b] by simp
  have "(sint b + 2 ^ 64) mod 2 ^ 64 = sint b + 2 ^ 64"
    using r assms by (intro mod_pos_pos_trivial) simp_all
  then have "sint b mod 2 ^ 64 = sint b + 2 ^ 64"
    by simp
  then have "uint (scast b :: u64) = sint b + 2 ^ 64"
    by (simp only: uint_scast_32_64)
  with r have "2 ^ 63 \<le> uint (scast b :: u64)"
    by simp
  then have "nat (2 ^ 63) \<le> nat (uint (scast b :: u64))"
    by (rule nat_mono)
  then show ?thesis
    by (simp add: unat_eq_nat_uint del: nat_uint_eq)
qed

lemma sint_start_sum:
  assumes "0 \<le> spec_start_bit s" "spec_start_bit s < 2 ^ 31"
  shows "sint (stofs s * 8 + bit_align s) = spec_start_bit s"
proof -
  have "stofs s * 8 + bit_align s = word_of_int (sint (stofs s) * 8 + sint (bit_align s))"
    by simp
  then have "sint (stofs s * 8 + bit_align s)
               = signed_take_bit 31 (sint (stofs s) * 8 + sint (bit_align s))"
    by (simp only: sint_sbintrunc') simp
  also have "\<dots> = sint (stofs s) * 8 + sint (bit_align s)"
    using assms by (simp add: spec_start_bit_def signed_take_bit_int_eq_self)
  finally show ?thesis
    by (simp only: spec_start_bit_def)
qed

lemma unat_start_bit_of:
  assumes "0 \<le> spec_start_bit s" "spec_start_bit s < 2 ^ 31"
  shows "int (unat (start_bit_of s)) = spec_start_bit s"
proof -
  have "0 \<le> sint (stofs s * 8 + bit_align s)"
    using assms by (simp only: sint_start_sum)
  then have "unat (start_bit_of s) = nat (sint (stofs s * 8 + bit_align s))"
    unfolding start_bit_of_def by (rule unat_scast_nonneg)
  then show ?thesis
    using assms by (simp only: sint_start_sum [OF assms] int_nat_eq if_True)
qed

lemma unat_total_bits_of:
  assumes "length (data s) < 2 ^ 61"
  shows "int (unat (total_bits_of s)) = spec_total_bits s"
proof -
  have "length (data s) * 8 < 2 ^ 64"
    using assms by simp
  then have "unat (of_nat (length (data s)) * 8 :: u64) = length (data s) * 8"
    by (simp add: unat_word_ariths unat_of_nat mod_mult_left_eq)
  then show ?thesis
    by (simp add: total_bits_of_def spec_total_bits_def)
qed

lemma sint_width_of_spec: "sint (width_of s) = spec_width s"
  by (simp add: width_of_def max_int_def spec_width_def word_sless_alt max_def)

lemma start_before_total:
  assumes len: "length (data s) < 2 ^ 61"
    and off: "0 \<le> spec_start_bit s" "spec_start_bit s < 2 ^ 31"
  shows "(start_bit_of s < total_bits_of s) = (spec_start_bit s < spec_total_bits s)"
proof -
  have "(start_bit_of s < total_bits_of s)
          = (int (unat (start_bit_of s)) < int (unat (total_bits_of s)))"
    by (simp only: word_less_nat_alt of_nat_less_iff)
  then show ?thesis
    by (simp only: unat_start_bit_of [OF off] unat_total_bits_of [OF len])
qed

lemma unat_pixels_available_of:
  assumes len: "length (data s) < 2 ^ 61"
    and off: "0 \<le> spec_start_bit s" "spec_start_bit s < 2 ^ 31"
    and start: "spec_start_bit s < spec_total_bits s"
    and bpp: "1 \<le> sint (bpp s)"
  shows "int (unat (pixels_available_of s)) = spec_pixels_available s"
proof -
  have lt: "start_bit_of s < total_bits_of s"
    using start by (simp add: start_before_total [OF len off])
  then have "start_bit_of s \<le> total_bits_of s"
    by simp
  then have "unat (total_bits_of s - start_bit_of s)
               = unat (total_bits_of s) - unat (start_bit_of s)"
    by (rule unat_sub)
  moreover have "unat (start_bit_of s) \<le> unat (total_bits_of s)"
    using lt by (simp add: word_less_nat_alt)
  ultimately have d: "int (unat (total_bits_of s - start_bit_of s))
                        = spec_total_bits s - spec_start_bit s"
    by (simp only: of_nat_diff unat_start_bit_of [OF off] unat_total_bits_of [OF len])
  have b: "int (unat (scast (bpp s) :: u64)) = sint (bpp s)"
    using bpp by (simp add: unat_scast_nonneg del: nat_uint_eq)
  have "int (unat (pixels_available_of s))
          = int (unat (total_bits_of s - start_bit_of s)) div int (unat (scast (bpp s) :: u64))"
    by (simp only: pixels_available_of_def unat_div zdiv_int)
  then show ?thesis
    by (simp only: d b spec_pixels_available_def)
qed

section \<open>Empty results\<close>

lemma render_viewport_empty:
  assumes "bpp s \<noteq> 0"
    and "total_bits_of s \<le> start_bit_of s \<or> pixels_available_of s = 0"
  shows "render_viewport s preset rows = Inr ([], 0)"
  using assms by (auto simp: render_viewport_def scast_32_64_eq_0)

text \<open>
  Where line 141 does not overflow (\<open>byte_offset * 8 + bit_align\<close> is an \<open>int\<close> that is not
  negative) the two early returns are those of the specification: a start at or past
  the end of the buffer, or no whole pixel left, gives the empty raster and
  \<open>rows_rendered = 0\<close>.
\<close>

lemma render_empty_in_range:
  assumes bpp: "1 \<le> sint (bpp s)"
    and len: "length (data s) < 2 ^ 61"
    and off: "0 \<le> spec_start_bit s" "spec_start_bit s < 2 ^ 31"
    and empty: "spec_total_bits s \<le> spec_start_bit s \<or> spec_pixels_available s = 0"
  shows "render_viewport s preset rows = Inr ([], 0)"
proof -
  have b0: "bpp s \<noteq> 0"
    using bpp by auto
  show ?thesis
  proof (cases "spec_start_bit s < spec_total_bits s")
    case True
    with empty have "spec_pixels_available s = 0"
      by simp
    then have "int (unat (pixels_available_of s)) = 0"
      by (simp only: unat_pixels_available_of [OF len off True bpp])
    then have "unat (pixels_available_of s) = 0"
      by (simp only: of_nat_eq_0_iff)
    then have "pixels_available_of s = 0"
      by (simp only: unat_0_iff)
    with b0 show ?thesis
      by (intro render_viewport_empty) simp_all
  next
    case False
    then have "\<not> start_bit_of s < total_bits_of s"
      by (simp add: start_before_total [OF len off])
    then have "total_bits_of s \<le> start_bit_of s"
      by simp
    with b0 show ?thesis
      by (intro render_viewport_empty) simp_all
  qed
qed

text \<open>
  C6, at a failing input: a three-byte buffer at 8 bits per pixel, width 3, with
  \<open>byte_offset = 2^29\<close>. The start bit of the specification is \<open>2^32\<close>, past the 24 bits of
  the buffer, so the claim gives the empty raster. Line 141 computes
  \<open>s.stofs * 8 + s.bit_align\<close> in \<open>int\<close>: the product wraps to 0, the test of line 142 does
  not fire, and the call renders the three bytes from the start of the buffer.
\<close>

theorem render_offset_wraps:
  "spec_start_bit (initial_state\<lparr>data := [1, 2, 3], stofs := 536870912, width_px := 3\<rparr>)
     = 4294967296
   \<and> spec_total_bits (initial_state\<lparr>data := [1, 2, 3], stofs := 536870912, width_px := 3\<rparr>) = 24
   \<and> render_viewport (initial_state\<lparr>data := [1, 2, 3], stofs := 536870912, width_px := 3\<rparr>)
         preset_gray8 1
       = Inr ([1, 1, 1, 255, 2, 2, 2, 255, 3, 3, 3, 255], 1)"
  by code_simp

section \<open>No check of \<open>bpp\<close>\<close>

lemma render_negative_bpp:
  assumes neg: "sint (bpp s) < 0" and len: "length (data s) < 2 ^ 60"
  shows "render_viewport s preset rows = Inr ([], 0)"
proof -
  have b0: "bpp s \<noteq> 0"
    using neg by auto
  show ?thesis
  proof (cases "total_bits_of s \<le> start_bit_of s")
    case True
    with b0 show ?thesis
      by (intro render_viewport_empty) simp_all
  next
    case False
    then have "start_bit_of s \<le> total_bits_of s"
      by simp
    then have "unat (total_bits_of s - start_bit_of s)
                 = unat (total_bits_of s) - unat (start_bit_of s)"
      by (rule unat_sub)
    then have "unat (total_bits_of s - start_bit_of s) \<le> unat (total_bits_of s)"
      by simp
    moreover have "length (data s) < 2 ^ 61"
      using len by simp
    then have "int (unat (total_bits_of s)) = int (length (data s) * 8)"
      by (simp only: unat_total_bits_of spec_total_bits_def of_nat_mult of_nat_numeral)
    then have "unat (total_bits_of s) = length (data s) * 8"
      by (simp only: of_nat_eq_iff)
    moreover have "length (data s) * 8 < 2 ^ 63"
      using len by simp
    ultimately have "unat (total_bits_of s - start_bit_of s) < 2 ^ 63"
      by simp
    from this unat_scast_neg [OF neg]
    have "unat (total_bits_of s - start_bit_of s) < unat (scast (bpp s) :: u64)"
      by (rule less_le_trans)
    then have "unat (pixels_available_of s) = 0"
      by (simp only: pixels_available_of_def unat_div div_less)
    then have "pixels_available_of s = 0"
      by (simp only: unat_0_iff)
    with b0 show ?thesis
      by (intro render_viewport_empty) simp_all
  qed
qed

lemma render_wide_bpp:
  assumes wide: "64 < sint (bpp s)" and be: "\<not> byte_order_le s"
    and rows: "0 \<le> sint rows" and fit: "sint rows * spec_width s < 2 ^ 30"
  shows "\<exists>out rr. render_viewport s preset rows = Inr (out, rr)
           \<and> int (length out) = int (unat rr) * spec_width s * 4"
proof -
  have b0: "bpp s \<noteq> 0"
    using wide by auto
  have dis: "\<not> byte_order_le s \<or> sint (bpp s) \<le> 64"
    using be by simp
  have fit': "sint rows * sint (width_of s) < 2 ^ 30"
    using fit by (simp only: sint_width_of_spec)
  have w: "int (unat (width_of s)) = spec_width s"
    using sint_width_of [of s] by (simp only: int_unat_nonneg_sint sint_width_of_spec)
  show ?thesis
  proof (cases "start_bit_of s < total_bits_of s \<and> pixels_available_of s \<noteq> 0")
    case True
    then have start: "start_bit_of s < total_bits_of s" and avail: "pixels_available_of s \<noteq> 0"
      by simp_all
    from render_viewport_sized [OF dis b0 start avail rows fit', of preset]
    obtain out where res: "render_viewport s preset rows = Inr (out, rows_needed_of s rows)"
      and len: "length out = unat (rows_needed_of s rows) * unat (width_of s) * 4"
      by blast
    from len have "int (length out) = int (unat (rows_needed_of s rows)) * spec_width s * 4"
      by (simp only: of_nat_mult w of_nat_numeral)
    with res show ?thesis
      by blast
  next
    case False
    then have "total_bits_of s \<le> start_bit_of s \<or> pixels_available_of s = 0"
      by auto
    with b0 have "render_viewport s preset rows = Inr ([], 0)"
      by (rule render_viewport_empty)
    then show ?thesis
      by simp
  qed
qed

text \<open>
  C2, as the specification states it, fails at \<open>bits_per_pixel = 65\<close>: on a buffer of
  nine bytes, with big-endian byte order, the call is not rejected, it returns a raster
  of one pixel.
\<close>

theorem render_bpp_65_not_rejected:
  "render_viewport (initial_state\<lparr>data := [1, 2, 3, 4, 5, 6, 7, 8, 9], width_px := 1, bpp := 65\<rparr>)
     preset_gray8 1 = Inr ([0, 0, 0, 255], 1)"
  by code_simp

text \<open>
  C2, amended. A \<open>bits_per_pixel\<close> outside [1,64] is not rejected in these two cases:
  \<^item> for every negative \<open>bits_per_pixel\<close>, and a buffer of fewer than \<open>2^60\<close> bytes, the call
    returns the empty raster with \<open>rows_rendered = 0\<close>, as a normal result;
  \<^item> for every \<open>bits_per_pixel\<close> above 64 under big-endian byte order, with
    \<open>requested_rows >= 0\<close> and \<open>requested_rows * max(1, row_width_px) < 2^30\<close>, the call
    returns, as a normal result and not an error, a raster of
    \<open>rows_rendered * max(1, row_width_px) * 4\<close> bytes.
  Nothing is stated of \<open>bits_per_pixel = 0\<close>, nor of a \<open>bits_per_pixel\<close> above 64 under
  little-endian byte order.
\<close>

theorem render_unchecked_bpp:
  "(sint (bpp s) < 0 \<and> length (data s) < 2 ^ 60 \<longrightarrow>
      render_viewport s preset rows = Inr ([], 0))
   \<and> (64 < sint (bpp s) \<and> \<not> byte_order_le s \<and> 0 \<le> sint rows
        \<and> sint rows * spec_width s < 2 ^ 30 \<longrightarrow>
      (\<exists>out rr. render_viewport s preset rows = Inr (out, rr)
         \<and> int (length out) = int (unat rr) * spec_width s * 4))"
  using render_negative_bpp [of s preset rows] render_wide_bpp [of s rows preset]
  by blast

theorem render_unchecked_bpp_witness:
  "render_viewport (initial_state\<lparr>data := [1, 2, 3, 4, 5, 6, 7, 8], bpp := - 1\<rparr>) preset_gray8 5
     = Inr ([], 0)
   \<and> (\<exists>out rr. render_viewport
          (initial_state\<lparr>data := [1, 2, 3, 4, 5, 6, 7, 8, 9], width_px := 2, bpp := 65\<rparr>)
          preset_gray8 5 = Inr (out, rr)
        \<and> int (length out) = int (unat rr)
             * spec_width (initial_state\<lparr>data := [1, 2, 3, 4, 5, 6, 7, 8, 9], width_px := 2,
                                          bpp := 65\<rparr>) * 4)"
proof -
  let ?s = "initial_state\<lparr>data := [1, 2, 3, 4, 5, 6, 7, 8], bpp := - 1\<rparr>"
  let ?t = "initial_state\<lparr>data := [1, 2, 3, 4, 5, 6, 7, 8, 9], width_px := 2, bpp := 65\<rparr>"
  have s1: "sint (bpp ?s) < 0 \<and> length (data ?s) < 2 ^ 60"
    by (simp add: initial_state_def)
  have t1: "64 < sint (bpp ?t) \<and> \<not> byte_order_le ?t \<and> 0 \<le> sint (5 :: cint)
            \<and> sint (5 :: cint) * spec_width ?t < 2 ^ 30"
    by (simp add: initial_state_def spec_width_def)
  from render_unchecked_bpp [of ?s preset_gray8 5] s1
  have a: "render_viewport ?s preset_gray8 5 = Inr ([], 0)"
    by blast
  from render_unchecked_bpp [of ?t preset_gray8 5] t1
  have b: "\<exists>out rr. render_viewport ?t preset_gray8 5 = Inr (out, rr)
             \<and> int (length out) = int (unat rr) * spec_width ?t * 4"
    by blast
  from a b show ?thesis
    by (rule conjI)
qed

text \<open>
  At \<open>bits_per_pixel = 0\<close>, with a start inside the buffer, line 149 divides by zero.
\<close>

lemma render_bpp_0_divides:
  "render_viewport (initial_state\<lparr>data := [1, 2, 3], bpp := 0\<rparr>) preset_gray8 1
     = Inl DivideByZero"
  by code_simp

section \<open>Clipping at the end of the buffer\<close>

lemma render_clipped_rows_words:
  assumes bpp: "1 \<le> sint (bpp s)" "sint (bpp s) \<le> 64"
    and start: "start_bit_of s < total_bits_of s"
    and avail: "pixels_available_of s \<noteq> 0"
    and more: "int (unat (pixels_available_of s)) < sint rows * sint (width_of s)"
    and fit: "sint rows * sint (width_of s) < 2 ^ 30"
  shows "\<exists>out rr. render_viewport s preset rows = Inr (out, rr)
           \<and> min (nat (sint rows * sint (width_of s))) (unat (pixels_available_of s))
                 \<le> unat rr * unat (width_of s)
           \<and> unat rr * unat (width_of s)
                 < min (nat (sint rows * sint (width_of s))) (unat (pixels_available_of s))
                   + unat (width_of s)
           \<and> int (unat rr) \<le> sint rows
           \<and> length out = unat rr * unat (width_of s) * 4
           \<and> (\<forall>p. unat (pixels_available_of s) \<le> p \<and> p < unat rr * unat (width_of s) \<longrightarrow>
                  out ! (4 * p) = 0 \<and> out ! (4 * p + 1) = 0
                  \<and> out ! (4 * p + 2) = 0 \<and> out ! (4 * p + 3) = 0)"
proof -
  define w where "w = unat (width_of s)"
  define r where "r = unat rows"
  define a where "a = unat (pixels_available_of s)"
  have w1: "1 \<le> sint (width_of s)"
    by (rule sint_width_of)
  have "(0 :: int) \<le> int (unat (pixels_available_of s))"
    by (rule of_nat_0_le_iff)
  from this more have "0 < sint rows * sint (width_of s)"
    by (rule le_less_trans)
  with w1 have rows: "0 \<le> sint rows"
    by (simp add: zero_less_mult_iff)
  have b0: "bpp s \<noteq> 0"
    using bpp(1) by auto
  have wi: "int w = sint (width_of s)"
    unfolding w_def using w1 by (simp only: int_unat_nonneg_sint)
  have ri: "int r = sint rows"
    unfolding r_def using rows by (simp only: int_unat_nonneg_sint)
  have rw: "nat (sint rows * sint (width_of s)) = r * w"
    by (simp only: wi [symmetric] ri [symmetric] nat_int of_nat_mult [symmetric])
  have "int a < int (r * w)"
    using more by (simp only: a_def wi [symmetric] ri [symmetric] of_nat_mult)
  then have a_lt: "a < r * w"
    by (simp only: of_nat_less_iff)
  have "int (r * w) < 2 ^ 30"
    using fit by (simp only: wi [symmetric] ri [symmetric] of_nat_mult)
  then have "r * w < 2 ^ 30"
    by (simp only: of_nat_less_numeral_power_cancel_iff)
  with a_lt have "a < 2 ^ 32"
    by simp
  then have amod: "a mod 2 ^ 32 = a"
    by simp
  have wpos: "1 \<le> w"
    using wi w1 by simp
  from render_viewport_sized [OF disjI2 [OF bpp(2)] b0 start avail rows fit, of preset]
  obtain out where res: "render_viewport s preset rows = Inr (out, rows_needed_of s rows)"
    and len: "length out = unat (rows_needed_of s rows) * unat (width_of s) * 4"
    and z: "\<forall>j. 4 * unat (pixels_available_of s) \<le> j \<and> j < length out \<longrightarrow> out ! j = 0"
    and rr: "unat (rows_needed_of s rows) =
               (min (unat rows * unat (width_of s)) (unat (pixels_available_of s) mod 2 ^ 32)
                 + unat (width_of s) - 1) div unat (width_of s)"
    and le: "unat (rows_needed_of s rows) \<le> unat rows"
    by blast
  define n where "n = unat (rows_needed_of s rows)"
  have m: "min (r * w) a = a"
    using a_lt by simp
  have n_eq: "n = (a + w - 1) div w"
    using rr by (simp only: n_def r_def [symmetric] w_def [symmetric] a_def [symmetric] amod m)
  have c1: "min (nat (sint rows * sint (width_of s))) (unat (pixels_available_of s))
              \<le> unat (rows_needed_of s rows) * unat (width_of s)"
    using ceil_div_bounds(1) [OF wpos, of a]
    by (simp only: rw n_def [symmetric] w_def [symmetric] a_def [symmetric] m n_eq)
  have c2: "unat (rows_needed_of s rows) * unat (width_of s)
              < min (nat (sint rows * sint (width_of s))) (unat (pixels_available_of s))
                + unat (width_of s)"
    using ceil_div_bounds(2) [OF wpos, of a]
    by (simp only: rw n_def [symmetric] w_def [symmetric] a_def [symmetric] m n_eq)
  have c3: "int (unat (rows_needed_of s rows)) \<le> sint rows"
    using le by (simp only: ri [symmetric] r_def [symmetric] of_nat_le_iff)
  have c5: "\<forall>p. unat (pixels_available_of s) \<le> p
                 \<and> p < unat (rows_needed_of s rows) * unat (width_of s) \<longrightarrow>
                  out ! (4 * p) = 0 \<and> out ! (4 * p + 1) = 0
                  \<and> out ! (4 * p + 2) = 0 \<and> out ! (4 * p + 3) = 0"
  proof (intro allI impI)
    fix p
    assume p: "unat (pixels_available_of s) \<le> p
                 \<and> p < unat (rows_needed_of s rows) * unat (width_of s)"
    then have lo: "4 * unat (pixels_available_of s) \<le> 4 * p" and hi: "4 * p + 3 < length out"
      by (simp_all add: len)
    from z lo hi show "out ! (4 * p) = 0 \<and> out ! (4 * p + 1) = 0
                  \<and> out ! (4 * p + 2) = 0 \<and> out ! (4 * p + 3) = 0"
      by simp
  qed
  show ?thesis
    by (intro exI [of _ out] exI [of _ "rows_needed_of s rows"] conjI res c1 c2 c3 len c5)
qed

text \<open>
  C7, amended. For every call with \<open>bits_per_pixel\<close> in [1,64], a buffer of fewer than
  \<open>2^61\<close> bytes, \<open>0 <= start_bit < 2^31\<close> (so that line 141 does not overflow),
  \<open>start_bit < total_bits\<close> and \<open>pixels_available > 0\<close>, in which
  \<open>requested_rows * width\<close> exceeds \<open>pixels_available\<close> and is below \<open>2^30\<close> (so that the
  32-bit products of lines 148-158 do not wrap): the call returns a raster and
  \<open>rows_rendered\<close>; \<open>rows_rendered\<close> is the ceiling of
  \<open>min(requested_rows * width, pixels_available) / width\<close>, that is the least number of
  rows of \<open>width\<close> pixels that hold that many pixels; it is at most \<open>requested_rows\<close>
  (not always less); the raster has \<open>rows_rendered * width * 4\<close> bytes; and every pixel
  at a row-major index \<open>p >= pixels_available\<close> has its four bytes 0. Here
  \<open>start_bit = byte_offset * 8 + bit_align\<close>, \<open>total_bits = len(buffer) * 8\<close>,
  \<open>width = max(1, row_width_px)\<close> and
  \<open>pixels_available = (total_bits - start_bit) / bits_per_pixel\<close> are the integers of the
  specification.
\<close>

theorem render_clipped_rows:
  assumes bpp: "1 \<le> sint (bpp s)" "sint (bpp s) \<le> 64"
    and len: "length (data s) < 2 ^ 61"
    and off: "0 \<le> spec_start_bit s" "spec_start_bit s < 2 ^ 31"
    and start: "spec_start_bit s < spec_total_bits s"
    and avail: "0 < spec_pixels_available s"
    and more: "spec_pixels_available s < sint rows * spec_width s"
    and fit: "sint rows * spec_width s < 2 ^ 30"
  shows "\<exists>out rr. render_viewport s preset rows = Inr (out, rr)
           \<and> min (sint rows * spec_width s) (spec_pixels_available s)
                 \<le> int (unat rr) * spec_width s
           \<and> int (unat rr) * spec_width s
                 < min (sint rows * spec_width s) (spec_pixels_available s) + spec_width s
           \<and> int (unat rr) \<le> sint rows
           \<and> int (length out) = int (unat rr) * spec_width s * 4
           \<and> (\<forall>p. spec_pixels_available s \<le> int p \<and> int p < int (unat rr) * spec_width s \<longrightarrow>
                  out ! (4 * p) = 0 \<and> out ! (4 * p + 1) = 0
                  \<and> out ! (4 * p + 2) = 0 \<and> out ! (4 * p + 3) = 0)"
proof -
  have pa: "int (unat (pixels_available_of s)) = spec_pixels_available s"
    by (rule unat_pixels_available_of [OF len off start bpp(1)])
  have w: "int (unat (width_of s)) = spec_width s"
    using sint_width_of [of s] by (simp only: int_unat_nonneg_sint sint_width_of_spec)
  have h3: "start_bit_of s < total_bits_of s"
    using start by (simp add: start_before_total [OF len off])
  have "int (unat (pixels_available_of s)) \<noteq> 0"
    using avail by (simp only: pa)
  then have h4: "pixels_available_of s \<noteq> 0"
    by auto
  have h5: "int (unat (pixels_available_of s)) < sint rows * sint (width_of s)"
    using more by (simp only: pa sint_width_of_spec)
  have h6: "sint rows * sint (width_of s) < 2 ^ 30"
    using fit by (simp only: sint_width_of_spec)
  have R: "0 \<le> sint rows * spec_width s"
    using avail more by simp
  from render_clipped_rows_words [OF bpp h3 h4 h5 h6, of preset]
  obtain out rr where res: "render_viewport s preset rows = Inr (out, rr)"
    and c1: "min (nat (sint rows * sint (width_of s))) (unat (pixels_available_of s))
               \<le> unat rr * unat (width_of s)"
    and c2: "unat rr * unat (width_of s)
               < min (nat (sint rows * sint (width_of s))) (unat (pixels_available_of s))
                 + unat (width_of s)"
    and c3: "int (unat rr) \<le> sint rows"
    and c4: "length out = unat rr * unat (width_of s) * 4"
    and c5: "\<forall>p. unat (pixels_available_of s) \<le> p \<and> p < unat rr * unat (width_of s) \<longrightarrow>
                  out ! (4 * p) = 0 \<and> out ! (4 * p + 1) = 0
                  \<and> out ! (4 * p + 2) = 0 \<and> out ! (4 * p + 3) = 0"
    by blast
  have m: "int (min (nat (sint rows * sint (width_of s))) (unat (pixels_available_of s)))
             = min (sint rows * spec_width s) (spec_pixels_available s)"
    using R by (simp only: of_nat_min pa sint_width_of_spec int_nat_eq if_True)
  have rw: "int (unat rr * unat (width_of s)) = int (unat rr) * spec_width s"
    by (simp only: of_nat_mult w)
  from c1 have "int (min (nat (sint rows * sint (width_of s))) (unat (pixels_available_of s)))
                  \<le> int (unat rr * unat (width_of s))"
    by (simp only: of_nat_le_iff)
  then have d1: "min (sint rows * spec_width s) (spec_pixels_available s)
                   \<le> int (unat rr) * spec_width s"
    by (simp only: m rw)
  from c2 have "int (unat rr * unat (width_of s))
                  < int (min (nat (sint rows * sint (width_of s))) (unat (pixels_available_of s))
                          + unat (width_of s))"
    by (simp only: of_nat_less_iff)
  then have d2: "int (unat rr) * spec_width s
                   < min (sint rows * spec_width s) (spec_pixels_available s) + spec_width s"
    by (simp only: of_nat_add m rw w)
  from c4 have d4: "int (length out) = int (unat rr) * spec_width s * 4"
    by (simp only: of_nat_mult w of_nat_numeral)
  have d5: "\<forall>p. spec_pixels_available s \<le> int p \<and> int p < int (unat rr) * spec_width s \<longrightarrow>
                  out ! (4 * p) = 0 \<and> out ! (4 * p + 1) = 0
                  \<and> out ! (4 * p + 2) = 0 \<and> out ! (4 * p + 3) = 0"
  proof (intro allI impI)
    fix p
    assume "spec_pixels_available s \<le> int p \<and> int p < int (unat rr) * spec_width s"
    then have "int (unat (pixels_available_of s)) \<le> int p
               \<and> int p < int (unat rr * unat (width_of s))"
      by (simp only: pa rw)
    then have "unat (pixels_available_of s) \<le> p \<and> p < unat rr * unat (width_of s)"
      by (simp only: of_nat_le_iff of_nat_less_iff)
    with c5 show "out ! (4 * p) = 0 \<and> out ! (4 * p + 1) = 0
                  \<and> out ! (4 * p + 2) = 0 \<and> out ! (4 * p + 3) = 0"
      by blast
  qed
  show ?thesis
    by (intro exI [of _ out] exI [of _ rr] conjI res d1 d2 c3 d4 d5)
qed

text \<open>
  C7, as the specification states it, fails where the pixels left over do not fill the
  last row: three bytes at 8 bits per pixel, width 4, one row requested. Four pixels are
  requested and three are available, and \<open>rows_rendered\<close> is 1, the number requested,
  not less.
\<close>

theorem render_last_row_not_fewer:
  "spec_pixels_available (initial_state\<lparr>data := [1, 2, 3], width_px := 4\<rparr>) = 3
   \<and> spec_width (initial_state\<lparr>data := [1, 2, 3], width_px := 4\<rparr>) = 4
   \<and> render_viewport (initial_state\<lparr>data := [1, 2, 3], width_px := 4\<rparr>) preset_gray8 1
       = Inr ([1, 1, 1, 255, 2, 2, 2, 255, 3, 3, 3, 255, 0, 0, 0, 0], 1)"
  by code_simp

theorem render_clipped_rows_witness:
  "\<exists>out rr. render_viewport (initial_state\<lparr>data := [1, 2, 3], width_px := 4\<rparr>) preset_gray8 1
              = Inr (out, rr)
     \<and> int (unat rr) \<le> sint (1 :: cint)
     \<and> int (length out)
         = int (unat rr) * spec_width (initial_state\<lparr>data := [1, 2, 3], width_px := 4\<rparr>) * 4"
proof -
  let ?s = "initial_state\<lparr>data := [1, 2, 3], width_px := 4\<rparr>"
  have h1: "1 \<le> sint (bpp ?s)" and h2: "sint (bpp ?s) \<le> 64"
    by (simp_all add: initial_state_def)
  have len: "length (data ?s) < 2 ^ 61"
    by (simp add: initial_state_def)
  have sb: "spec_start_bit ?s = 0"
    by (simp add: initial_state_def spec_start_bit_def)
  have tb: "spec_total_bits ?s = 24"
    by (simp add: initial_state_def spec_total_bits_def)
  have pa: "spec_pixels_available ?s = 3"
    by (simp add: spec_pixels_available_def sb tb) (simp add: initial_state_def)
  have wd: "spec_width ?s = 4"
    by (simp add: initial_state_def spec_width_def)
  have o1: "0 \<le> spec_start_bit ?s" and o2: "spec_start_bit ?s < 2 ^ 31"
    and st: "spec_start_bit ?s < spec_total_bits ?s"
    by (simp_all add: sb tb)
  have h4: "0 < spec_pixels_available ?s"
    by (simp add: pa)
  have h5: "spec_pixels_available ?s < sint (1 :: cint) * spec_width ?s"
    by (simp add: pa wd)
  have h6: "sint (1 :: cint) * spec_width ?s < 2 ^ 30"
    by (simp add: wd)
  from render_clipped_rows [OF h1 h2 len o1 o2 st h4 h5 h6, of preset_gray8] show ?thesis
    by blast
qed

section \<open>Scenarios\<close>

text \<open>
  C4, as the specification states it: the buffer \<open>[0b10110100, 0]\<close> at 4 bits per pixel,
  MSB first, from bit 0, with the preset \<open>{GRAY:4}\<close>, width 4 and one row would give the
  gray levels 187, 69, 0, 0. The second sample is 4, and \<open>(4 * 255 + 7) / 15\<close> is 68, not
  69: the code does not return the raster of the claim.
\<close>

theorem gray4_scenario_not_69:
  "render_viewport (initial_state\<lparr>data := [0xB4, 0], width_px := 4, bpp := 4\<rparr>) preset_gray4 1
     \<noteq> Inr ([187, 187, 187, 255, 69, 69, 69, 255, 0, 0, 0, 255, 0, 0, 0, 255], 1)"
  by code_simp

lemma gray4_big_endian:
  "render_viewport (initial_state\<lparr>data := [0xB4, 0], width_px := 4, bpp := 4,
                                  byte_order_le := False\<rparr>) preset_gray4 1
     = Inr ([187, 187, 187, 255, 68, 68, 68, 255, 0, 0, 0, 255, 0, 0, 0, 255], 1)"
  by code_simp

lemma gray4_little_endian:
  "render_viewport (initial_state\<lparr>data := [0xB4, 0], width_px := 4, bpp := 4,
                                  byte_order_le := True\<rparr>) preset_gray4 1
     = Inr ([187, 187, 187, 255, 68, 68, 68, 255, 0, 0, 0, 255, 0, 0, 0, 255], 1)"
  by code_simp

text \<open>
  C4, amended: the same call returns one row of four pixels whose RGB triples are
  (187,187,187), (68,68,68), (0,0,0), (0,0,0), with alpha 255 in every pixel, under
  either byte order.
\<close>

theorem gray4_scenario:
  "render_viewport (initial_state\<lparr>data := [0xB4, 0], width_px := 4, bpp := 4,
                                  byte_order_le := le\<rparr>) preset_gray4 1
     = Inr ([187, 187, 187, 255, 68, 68, 68, 255, 0, 0, 0, 255, 0, 0, 0, 255], 1)"
  by (cases le) (simp_all only: gray4_big_endian gray4_little_endian)

section \<open>Defects at the edges of the ranges\<close>

text \<open>
  C10, at a failing input: a one-byte buffer, 8 bits per pixel, a width of \<open>2^30\<close>, one
  row requested. One pixel is available, \<open>rows_needed\<close> is 1, and line 158 sizes the raster
  by the \<open>uint32_t\<close> product \<open>1 * 2^30 * 4\<close>, which wraps to 0: the raster is empty where
  the claim gives it \<open>2^32\<close> bytes, and the first store of the loop is outside it.
\<close>

theorem render_raster_size_wraps:
  "rows_needed_of (initial_state\<lparr>data := [255], width_px := 1073741824\<rparr>) 1 = 1
   \<and> unat (rows_needed_of (initial_state\<lparr>data := [255], width_px := 1073741824\<rparr>) 1
            * width_of (initial_state\<lparr>data := [255], width_px := 1073741824\<rparr>) * 4) = 0
   \<and> render_viewport (initial_state\<lparr>data := [255], width_px := 1073741824\<rparr>) preset_gray8 1
       = Inl OutOfBounds"
  by code_simp


lemma spec_read_bits_msb_numeral:
  "spec_read_bits_msb buffer start (numeral k) =
     2 * spec_read_bits_msb buffer start (pred_numeral k)
       + spec_bit_msb buffer (start + pred_numeral k)"
  by (simp add: numeral_eq_Suc)

lemma read_bits_msb_33_code: "read_bits_msb [0x80, 0, 0, 0, 0] 40 0 33 = Inr 0"
  by code_simp

lemma read_bits_msb_33_spec: "spec_read_bits_msb [0x80, 0, 0, 0, 0] 0 33 = 4294967296"
  by (simp add: spec_read_bits_msb_numeral spec_bit_msb_def)

text \<open>
  C1, at a failing input: 33 bits read MSB first from the buffer \<open>[0x80, 0, 0, 0, 0]\<close> at
  bit 0. The first bit is 1 and the other 32 are 0, so the value the specification
  describes is \<open>2^32\<close>; \<open>read_bits_msb\<close> accumulates in a \<open>uint32_t\<close> and returns 0.
\<close>

theorem read_bits_msb_33_bits:
  "read_bits_msb [0x80, 0, 0, 0, 0] 40 0 33 = Inr 0
   \<and> spec_read_bits_msb [0x80, 0, 0, 0, 0] 0 33 = 4294967296"
  using read_bits_msb_33_code read_bits_msb_33_spec by (rule conjI)

lemma mask_bpp_64: "mask_bpp 64 = 0"
  by (simp add: mask_bpp_def shl_u64_def)

text \<open>
  C9, at the failing width: with \<open>bpp = 64\<close> and the little-endian flag set, line 74
  masks with \<open>(1ull << 64) - 1ull\<close>. Line 62 guards its own mask with \<open>bpp >= 64\<close>; line 74
  does not, the shift count wraps to 0 and the mask is \<open>1 - 1 = 0\<close>: every pixel value
  becomes 0, and so does the double adjustment, where the claim gives back \<open>v\<close>.
\<close>

theorem adjust_le_64_is_zero:
  "adjust_endianness_pixel v 64 True = Inr 0"
proof -
  have n: "unat (ucast (div_int (64 + 7) 8 :: cint) :: u8) = 8"
    by (simp add: div_int_def)
  obtain bs where bs: "adjust_split_loop v 8 0 (replicate 8 0) = Inr bs" and "length bs = 8"
    using adjust_split_loop_total [of 8 "replicate 8 0" v 0] by auto
  then obtain out where out: "adjust_join_loop bs 8 0 0 = Inr out"
    using adjust_join_loop_total [of 8 bs 0 0] by auto
  have "\<not> ((64 :: cint) \<le>s 8)"
    by (simp add: word_sle_eq)
  with n bs out show ?thesis
    by (simp add: adjust_endianness_pixel_def Let_def mask_bpp_64)
qed

theorem adjust_le_64_is_zero_witness:
  "adjust_endianness_pixel 0x0102030405060708 64 True = Inr 0
   \<and> (case adjust_endianness_pixel 0x0102030405060708 64 True of
        Inl e \<Rightarrow> Inl e | Inr w \<Rightarrow> adjust_endianness_pixel w 64 True) = Inr 0"
  using adjust_le_64_is_zero [of "0x0102030405060708"] adjust_le_64_is_zero [of 0]
  by simp

section \<open>Single-bit reads under the two bit orders\<close>

lemma seven_mask: "(7 :: u64) = mask 3"
  by (simp add: mask_eq_exp_minus_1)

lemma drop3_xor7: "drop_bit 3 (p XOR 7) = drop_bit 3 (p :: u64)"
  unfolding seven_mask by (rule bit_eqI) (simp add: bit_simps)

lemma and7_cases:
  fixes p :: u64
  obtains "p AND 7 = 0" | "p AND 7 = 1" | "p AND 7 = 2" | "p AND 7 = 3"
    | "p AND 7 = 4" | "p AND 7 = 5" | "p AND 7 = 6" | "p AND 7 = 7"
proof -
  define k where "k = unat (p AND 7)"
  have "p AND 7 \<le> 7"
    by (rule word_and_le1)
  then have "k \<le> 7"
    by (simp add: k_def word_le_nat_alt)
  then consider "k = 0" | "k = 1" | "k = 2" | "k = 3" | "k = 4" | "k = 5" | "k = 6" | "k = 7"
    by linarith
  moreover have "p AND 7 = of_nat k"
    by (simp add: k_def)
  ultimately show thesis
    using that by cases simp_all
qed

lemma and7_xor7: "(p XOR 7) AND 7 = 7 - (p AND 7 :: u64)"
proof -
  have e: "(p XOR 7) AND 7 = (p AND 7) XOR 7"
    unfolding seven_mask by (rule bit_eqI) (auto simp add: bit_simps)
  show ?thesis
    unfolding e by (rule and7_cases [of p]) simp_all
qed

lemma bit_roundtrip: "(ucast (0 OR (scast (shl_int (ucast b) 0) :: u64)) :: u32) = ucast (b :: u8)"
  by (rule bit_eqI) (auto simp add: shl_int_def bit_simps)

lemma unat_drop_bit_3: "unat (drop_bit 3 (x :: u64)) = unat x div 8"
  by (simp add: drop_bit_eq_div unat_div)

lemma below_total_xor7:
  "(p XOR 7 < (of_nat L * 8 :: u64)) = (p < of_nat L * 8)"
proof -
  define t where "t = unat (of_nat L * 8 :: u64)"
  have "t = (L * 8) mod 2 ^ 64"
    by (simp add: t_def unat_word_ariths unat_of_nat mod_mult_left_eq)
  then have "8 dvd t"
    by (simp add: dvd_mod_iff)
  then obtain k where k: "t = 8 * k" ..
  have blk: "(x < t) = (x div 8 < k)" for x :: nat
    unfolding k by (simp add: div_less_iff_less_mult mult.commute)
  have "unat (drop_bit 3 (p XOR 7)) = unat (drop_bit 3 p)"
    by (simp only: drop3_xor7)
  then have d: "unat (p XOR 7) div 8 = unat p div 8"
    by (simp only: unat_drop_bit_3)
  show ?thesis
    by (simp only: word_less_nat_alt t_def [symmetric] blk d)
qed

lemma read_bits_msb_one:
  "read_bits_msb d tb p 1 = read_bits_msb_step d tb p 0 0"
  by (simp add: read_bits_msb_def read_bits_msb_loop.simps [of d tb p "Suc 0"] split: sum.split)

lemma read_bits_lsb_one:
  "read_bits_lsb d tb p 1 =
     (case read_bits_lsb_step d tb p 0 0 of Inl e \<Rightarrow> Inl e | Inr v \<Rightarrow> Inr (ucast v))"
  by (simp add: read_bits_lsb_def read_bits_lsb_loop.simps [of d tb p "Suc 0"] split: sum.split)

lemma bit_in_byte_mirrored:
  "unat (ucast ((p XOR 7) AND 7 :: u64) :: u8) = unat (7 - (p AND 7))"
proof -
  have "(p XOR 7) AND 7 \<le> 7"
    by (rule word_and_le1)
  then have "unat ((p XOR 7) AND 7) \<le> 7"
    by (simp add: word_le_nat_alt)
  then have "unat ((p XOR 7) AND 7) mod 2 ^ 8 = unat ((p XOR 7) AND 7)"
    by simp
  then have "unat (ucast ((p XOR 7) AND 7) :: u8) = unat ((p XOR 7) AND 7)"
    by (simp add: unsigned_ucast_eq take_bit_eq_mod)
  then show ?thesis
    by (simp only: and7_xor7)
qed

text \<open>
  C5, as the specification states it, fails on the one-byte buffer \<open>[0x80]\<close> at position 0:
  MSB first the bit read is bit 7 of the byte, which is 1, and LSB first it is bit 0,
  which is 0.
\<close>

theorem single_bit_orders_differ:
  "read_bits_msb [0x80] (of_nat (length [0x80 :: u8]) * 8) 0 1
     \<noteq> read_bits_lsb [0x80] (of_nat (length [0x80 :: u8]) * 8) 0 1"
  by code_simp

text \<open>
  C5, amended. The two bit orders number the bits of a byte in opposite directions: for
  every buffer and every bit position \<open>p\<close>, the single-bit read \<open>read_bits(MSB_FIRST, p, 1)\<close>
  returns the same value as \<open>read_bits(LSB_FIRST, p', 1)\<close> at the mirrored position
  \<open>p' = p XOR 7\<close>, which is \<open>8 * (p / 8) + (7 - p % 8)\<close>, the same byte and the opposite bit.
  \<open>total_bits\<close> is \<open>len(buffer) * 8\<close>, as line 140 computes it.
\<close>

theorem single_bit_msb_is_mirrored_lsb:
  "read_bits_msb d (of_nat (length d) * 8) p 1
     = read_bits_lsb d (of_nat (length d) * 8) (p XOR 7) 1"
proof (cases "p < (of_nat (length d) * 8 :: u64)")
  case True
  then have q: "p XOR 7 < (of_nat (length d) * 8 :: u64)"
    by (simp only: below_total_xor7)
  from byte_at_in_range [OF True] obtain b where b: "byte_at d (drop_bit 3 p) = Inr b" ..
  have m: "read_bits_msb d (of_nat (length d) * 8) p 1
             = Inr (ucast (drop_bit (unat (7 - (p AND 7))) b AND 1))"
    using True b by (simp add: read_bits_msb_one read_bits_msb_step_def)
  have "read_bits_lsb d (of_nat (length d) * 8) (p XOR 7) 1
          = Inr (ucast (0 OR (scast (shl_int (ucast (drop_bit (unat (7 - (p AND 7))) b AND 1)) 0)
                               :: u64)))"
    using q b by (simp add: read_bits_lsb_one read_bits_lsb_step_def Let_def drop3_xor7
        bit_in_byte_mirrored)
  then have "read_bits_lsb d (of_nat (length d) * 8) (p XOR 7) 1
               = Inr (ucast (drop_bit (unat (7 - (p AND 7))) b AND 1))"
    by (simp only: bit_roundtrip)
  with m show ?thesis
    by simp
next
  case False
  then have q: "\<not> p XOR 7 < (of_nat (length d) * 8 :: u64)"
    by (simp add: below_total_xor7)
  have "read_bits_msb d (of_nat (length d) * 8) p 1 = Inr 0"
    using False by (simp add: read_bits_msb_one read_bits_msb_step_def)
  moreover have "read_bits_lsb d (of_nat (length d) * 8) (p XOR 7) 1 = Inr 0"
    using q by (simp add: read_bits_lsb_one read_bits_lsb_step_def shl_int_def)
  ultimately show ?thesis
    by simp
qed

section \<open>The range of \<open>scale_to_8\<close>\<close>












section \<open>Reads past the end of the buffer\<close>

lemma unat_total_bits:
  assumes "L < 2 ^ 61"
  shows "unat (of_nat L * 8 :: u64) = L * 8"
proof -
  have "L * 8 < 2 ^ 64"
    using assms by simp
  then show ?thesis
    by (simp add: unat_word_ariths unat_of_nat mod_mult_left_eq)
qed

lemma byte_at_padded:
  assumes "length d + k < 2 ^ 61"
    and "p < (of_nat (length d + k) * 8 :: u64)"
  shows "byte_at (d @ replicate k 0) (drop_bit 3 p)
           = (if p < of_nat (length d) * 8 then byte_at d (drop_bit 3 p) else Inr 0)"
proof -
  have len: "length d < 2 ^ 61"
    using assms(1) by simp
  have "unat p < (length d + k) * 8"
    using assms(2) unfolding word_less_nat_alt unat_total_bits [OF assms(1)] .
  then have idx: "unat p div 8 < length d + k"
    by (simp add: less_mult_imp_div_less)
  have lt: "(p < of_nat (length d) * 8) = (unat p div 8 < length d)"
    unfolding word_less_nat_alt unat_total_bits [OF len]
    by (simp add: div_less_iff_less_mult mult.commute)
  show ?thesis
    using idx by (simp add: byte_at_def unat_drop_bit_3 lt nth_append)
qed

lemma below_padded:
  assumes "length d + k < 2 ^ 61"
    and "p < (of_nat (length d) * 8 :: u64)"
  shows "p < (of_nat (length d + k) * 8 :: u64)"
proof -
  have len: "length d < 2 ^ 61"
    using assms(1) by simp
  have "unat p < length d * 8"
    using assms(2) unfolding word_less_nat_alt unat_total_bits [OF len] .
  then have "unat p < (length d + k) * 8"
    by simp
  then show ?thesis
    unfolding word_less_nat_alt unat_total_bits [OF assms(1)] .
qed

lemma read_bits_msb_step_padded:
  assumes "length d + k < 2 ^ 61"
  shows "read_bits_msb_step (d @ replicate k 0) (of_nat (length d + k) * 8) bitpos i val
           = read_bits_msb_step d (of_nat (length d) * 8) bitpos i val"
proof (cases "bitpos + of_nat i < (of_nat (length d + k) * 8 :: u64)")
  case True
  show ?thesis
  proof (cases "bitpos + of_nat i < (of_nat (length d) * 8 :: u64)")
    case in_d: True
    with True byte_at_padded [OF assms True] show ?thesis
      by (simp add: read_bits_msb_step_def Let_def)
  next
    case False
    with True byte_at_padded [OF assms True] show ?thesis
      by (simp add: read_bits_msb_step_def Let_def)
  qed
next
  case False
  with below_padded [OF assms, of "bitpos + of_nat i"]
  have "\<not> bitpos + of_nat i < (of_nat (length d) * 8 :: u64)"
    by blast
  with False show ?thesis
    by (simp add: read_bits_msb_step_def Let_def)
qed

lemma read_bits_lsb_step_padded:
  assumes "length d + k < 2 ^ 61"
  shows "read_bits_lsb_step (d @ replicate k 0) (of_nat (length d + k) * 8) bitpos i val
           = read_bits_lsb_step d (of_nat (length d) * 8) bitpos i val"
proof (cases "bitpos + of_nat i < (of_nat (length d + k) * 8 :: u64)")
  case True
  show ?thesis
  proof (cases "bitpos + of_nat i < (of_nat (length d) * 8 :: u64)")
    case in_d: True
    with True byte_at_padded [OF assms True] show ?thesis
      by (simp add: read_bits_lsb_step_def Let_def)
  next
    case False
    with True byte_at_padded [OF assms True] show ?thesis
      by (simp add: read_bits_lsb_step_def Let_def shl_int_def)
  qed
next
  case False
  with below_padded [OF assms, of "bitpos + of_nat i"]
  have "\<not> bitpos + of_nat i < (of_nat (length d) * 8 :: u64)"
    by blast
  with False show ?thesis
    by (simp add: read_bits_lsb_step_def Let_def)
qed

lemma read_bits_msb_loop_cong:
  assumes "\<And>i val. read_bits_msb_step d' tb' bitpos i val = read_bits_msb_step d tb bitpos i val"
  shows "read_bits_msb_loop d' tb' bitpos n i val = read_bits_msb_loop d tb bitpos n i val"
proof (induction "n - i" arbitrary: i val)
  case 0
  then show ?case
    by (simp add: read_bits_msb_loop.simps [of _ _ _ n i])
next
  case (Suc j)
  from Suc.hyps(2) have "i < n" "j = n - Suc i" by simp_all
  with Suc.hyps(1) [of "Suc i"] show ?case
    by (simp add: read_bits_msb_loop.simps [of _ _ _ n i] assms split: sum.split)
qed

lemma read_bits_lsb_loop_cong:
  assumes "\<And>i val. read_bits_lsb_step d' tb' bitpos i val = read_bits_lsb_step d tb bitpos i val"
  shows "read_bits_lsb_loop d' tb' bitpos n i val = read_bits_lsb_loop d tb bitpos n i val"
proof (induction "n - i" arbitrary: i val)
  case 0
  then show ?case
    by (simp add: read_bits_lsb_loop.simps [of _ _ _ n i])
next
  case (Suc j)
  from Suc.hyps(2) have "i < n" "j = n - Suc i" by simp_all
  with Suc.hyps(1) [of "Suc i"] show ?case
    by (simp add: read_bits_lsb_loop.simps [of _ _ _ n i] assms split: sum.split)
qed

text \<open>
  A position past the end reads as a zero bit: the readers cannot tell a buffer from the
  same buffer followed by \<open>k\<close> zero bytes.
\<close>

lemma read_bits_zero_padding:
  assumes "length d + k < 2 ^ 61"
  shows "read_bits_msb (d @ replicate k 0) (of_nat (length d + k) * 8) bitpos nbits
           = read_bits_msb d (of_nat (length d) * 8) bitpos nbits"
    and "read_bits_lsb (d @ replicate k 0) (of_nat (length d + k) * 8) bitpos nbits
           = read_bits_lsb d (of_nat (length d) * 8) bitpos nbits"
  unfolding read_bits_msb_def read_bits_lsb_def
  by (simp_all only: read_bits_msb_loop_cong [OF read_bits_msb_step_padded [OF assms]]
      read_bits_lsb_loop_cong [OF read_bits_lsb_step_padded [OF assms]])

lemma read_bits_msb_loop_past_end:
  assumes "\<forall>j < n. tb \<le> bitpos + of_nat j"
  shows "read_bits_msb_loop d tb bitpos n i 0 = Inr 0"
proof (induction "n - i" arbitrary: i)
  case 0
  then show ?case
    by (simp add: read_bits_msb_loop.simps [of _ _ _ n i])
next
  case (Suc j)
  from Suc.hyps(2) have i: "i < n" "j = n - Suc i" by simp_all
  with assms have "\<not> bitpos + of_nat i < tb"
    by (simp add: not_less)
  then have "read_bits_msb_step d tb bitpos i 0 = Inr 0"
    by (simp add: read_bits_msb_step_def Let_def)
  with Suc.hyps(1) [of "Suc i"] i show ?case
    by (simp add: read_bits_msb_loop.simps [of _ _ _ n i])
qed

lemma read_bits_lsb_loop_past_end:
  assumes "\<forall>j < n. tb \<le> bitpos + of_nat j"
  shows "read_bits_lsb_loop d tb bitpos n i 0 = Inr 0"
proof (induction "n - i" arbitrary: i)
  case 0
  then show ?case
    by (simp add: read_bits_lsb_loop.simps [of _ _ _ n i])
next
  case (Suc j)
  from Suc.hyps(2) have i: "i < n" "j = n - Suc i" by simp_all
  with assms have "\<not> bitpos + of_nat i < tb"
    by (simp add: not_less)
  then have "read_bits_lsb_step d tb bitpos i 0 = Inr 0"
    by (simp add: read_bits_lsb_step_def Let_def shl_int_def)
  with Suc.hyps(1) [of "Suc i"] i show ?case
    by (simp add: read_bits_lsb_loop.simps [of _ _ _ n i])
qed

text \<open>
  While \<open>bitpos + nbits\<close> stays below \<open>2^64\<close> the positions \<open>size_t p = bitpos + i\<close> of the
  loops are the positions \<open>start_bit + i\<close> of the specification, and a read that lies
  entirely at or past \<open>total_bits\<close> returns 0.
\<close>

lemma read_bits_past_end_in_range:
  assumes len: "length d < 2 ^ 61"
    and fit: "unat bitpos + nat (sint nbits) \<le> 2 ^ 64"
    and past: "length d * 8 \<le> unat bitpos"
  shows "read_bits_msb d (of_nat (length d) * 8) bitpos nbits = Inr 0"
    and "read_bits_lsb d (of_nat (length d) * 8) bitpos nbits = Inr 0"
proof -
  have "\<forall>j < nat (sint nbits). (of_nat (length d) * 8 :: u64) \<le> bitpos + of_nat j"
  proof (intro allI impI)
    fix j
    assume j: "j < nat (sint nbits)"
    with fit have small: "unat bitpos + j < 2 ^ 64"
      by simp
    then have "j < 2 ^ 64"
      by simp
    then have uj: "unat (of_nat j :: u64) = j"
      by (simp add: unat_of_nat)
    with small have "unat bitpos + unat (of_nat j :: u64) < 2 ^ LENGTH(64)"
      by simp
    then have "unat (bitpos + of_nat j) = unat bitpos + unat (of_nat j :: u64)"
      by (simp only: unat_add_lem)
    with uj past have "length d * 8 \<le> unat (bitpos + of_nat j)"
      by simp
    then show "(of_nat (length d) * 8 :: u64) \<le> bitpos + of_nat j"
      unfolding word_le_nat_alt unat_total_bits [OF len] .
  qed
  then show "read_bits_msb d (of_nat (length d) * 8) bitpos nbits = Inr 0"
    and "read_bits_lsb d (of_nat (length d) * 8) bitpos nbits = Inr 0"
    by (simp_all add: read_bits_msb_def read_bits_lsb_def read_bits_msb_loop_past_end
        read_bits_lsb_loop_past_end)
qed


end
